theory Spec2Isabelle
  imports Main "HOL-Library.Word" "HOL-Library.AList"
begin

section \<open>Memory, pages and protection\<close>

text \<open>
  The package copies values into pages obtained from \<^verbatim>\<open>unix.Mmap\<close> and downgrades
  them with \<^verbatim>\<open>unix.Mprotect\<close>. The process memory is byte addressed; every address
  carries a protection. Addresses are natural numbers (a \<^verbatim>\<open>uintptr\<close> that never wraps);
  the platform is 64-bit with 4096-byte pages.
\<close>

type_synonym addr = nat
type_synonym byte = "8 word"

datatype perm = Unmapped | ReadWrite | ReadOnly

record state =
  mem :: "addr \<Rightarrow> byte"
  prot :: "addr \<Rightarrow> perm"
  brk :: addr
  mmaps :: "(addr \<times> nat) list"
  buckets :: "addr \<Rightarrow> (byte list \<times> byte list) list"

text \<open>
  \<open>brk\<close> is the lowest address that neither the Go heap nor \<^verbatim>\<open>mmap\<close> has handed out;
  \<open>mmaps\<close> lists the byte slices returned by \<^verbatim>\<open>unix.Mmap\<close> (base and length), newest
  first; \<open>buckets\<close> holds, for the address of a map's bucket array, the entries
  stored there (key bytes and value bytes). A call ends in a value, in a Go panic (recoverable, the state survives) or in
  a fault (the unrecoverable "unexpected fault address" of an access violation).
\<close>

datatype 'a result = Ok state 'a | Panic state string | Fault

definition pageSize :: nat where
  "pageSize = 4096"

definition roundup :: "nat \<Rightarrow> nat" where
  "roundup n = ((n + pageSize - 1) div pageSize) * pageSize"

definition readable :: "state \<Rightarrow> addr \<Rightarrow> nat \<Rightarrow> bool" where
  "readable s a n = list_all (\<lambda>i. prot s (a + i) \<noteq> Unmapped) [0..<n]"

definition writable :: "state \<Rightarrow> addr \<Rightarrow> nat \<Rightarrow> bool" where
  "writable s a n = list_all (\<lambda>i. prot s (a + i) = ReadWrite) [0..<n]"

definition loadBytes :: "state \<Rightarrow> addr \<Rightarrow> nat \<Rightarrow> byte list" where
  "loadBytes s a n = map (\<lambda>i. mem s (a + i)) [0..<n]"

definition pokeBytes :: "(addr \<Rightarrow> byte) \<Rightarrow> addr \<Rightarrow> byte list \<Rightarrow> (addr \<Rightarrow> byte)" where
  "pokeBytes m a bs = (\<lambda>x. if a \<le> x \<and> x < a + length bs then bs ! (x - a) else m x)"

text \<open>A store of \<open>bs\<close> at \<open>a\<close>: it faults unless every byte written is writable.\<close>

definition storeBytes :: "state \<Rightarrow> addr \<Rightarrow> byte list \<Rightarrow> state option" where
  "storeBytes s a bs =
     (if writable s a (length bs) then Some (s\<lparr>mem := pokeBytes (mem s) a bs\<rparr>) else None)"

text \<open>
  The builtin \<^verbatim>\<open>copy(dst, src)\<close> on two byte slices of \<open>n\<close> bytes each: a memmove that
  reads \<open>n\<close> bytes at \<open>src\<close> and writes them at \<open>dst\<close>.
\<close>

definition copyBytes :: "state \<Rightarrow> addr \<Rightarrow> addr \<Rightarrow> nat \<Rightarrow> state option" where
  "copyBytes s dst src n =
     (if readable s src n then storeBytes s dst (loadBytes s src n) else None)"

text \<open>
  \<^verbatim>\<open>unix.Mmap(-1, 0, n, PROT_READ|PROT_WRITE, MAP_ANON|MAP_PRIVATE)\<close>: fresh zero-filled
  pages above everything handed out so far; the kernel maps whole pages, the returned
  slice has length \<open>n\<close>. A zero length is refused (EINVAL).
\<close>

definition Mmap :: "state \<Rightarrow> nat \<Rightarrow> (state \<times> addr) option" where
  "Mmap s n =
     (if n = 0 then None
      else let base = roundup (brk s); len = roundup n in
        Some (s\<lparr>mem := (\<lambda>a. if base \<le> a \<and> a < base + len then 0 else mem s a),
                prot := (\<lambda>a. if base \<le> a \<and> a < base + len then ReadWrite else prot s a),
                brk := base + len,
                mmaps := (base, n) # mmaps s\<rparr>, base))"

text \<open>
  \<^verbatim>\<open>unix.Mprotect(b, PROT_READ)\<close> on the \<open>n\<close> bytes at \<open>a\<close>: the start must be page
  aligned (EINVAL), every page touched must be mapped (ENOMEM), and the permission
  changes for whole pages.
\<close>

definition Mprotect :: "state \<Rightarrow> addr \<Rightarrow> nat \<Rightarrow> state option" where
  "Mprotect s a n =
     (if a mod pageSize \<noteq> 0 then None
      else if \<not> readable s a (roundup n) then None
      else Some (s\<lparr>prot := (\<lambda>x. if a \<le> x \<and> x < a + roundup n then ReadOnly else prot s x)\<rparr>))"

section \<open>The freezing primitives\<close>

text \<open>
  A read of memory that is not mapped: in the first page of the address space the
  runtime turns the signal into the nil-dereference panic, which \<^verbatim>\<open>recover\<close> can
  catch; anywhere else the program dies.
\<close>

definition nilPage :: nat where
  "nilPage = 4096"

definition badRead :: "state \<Rightarrow> addr \<Rightarrow> 'a result" where
  "badRead s a =
     (if a < nilPage then Panic s ''runtime error: invalid memory address or nil pointer dereference''
      else Fault)"

text \<open>
  \<^verbatim>\<open>copyAndFreeze(dataptr, n)\<close>: nothing for \<open>n = 0\<close>; otherwise map \<open>n\<close> bytes, copy,
  protect, return the address of the new memory. The finalizer that unmaps the region
  when the slice is collected is not part of the model.
\<close>

definition copyAndFreeze :: "state \<Rightarrow> addr \<Rightarrow> nat \<Rightarrow> addr result" where
  "copyAndFreeze s dataptr n =
     (if n = 0 then Ok s dataptr
      else (case Mmap s n of
        None \<Rightarrow> Panic s ''mmap''
      | Some (s1, newMem) \<Rightarrow>
         (case copyBytes s1 newMem dataptr n of
            None \<Rightarrow> badRead s1 dataptr
          | Some s2 \<Rightarrow>
             (case Mprotect s2 newMem n of
                None \<Rightarrow> Panic s2 ''mprotect''
              | Some s3 \<Rightarrow> Ok s3 newMem))))"

text \<open>
  The runtime's map header on a 64-bit platform, as the source copies it from
  \<^verbatim>\<open>runtime/hmap.go\<close>: \<open>count\<close> (int) at offset 0, \<open>flags\<close> at 8, \<open>B\<close> at 9, \<open>hash0\<close> at
  12, \<open>buckets\<close> at 16, \<open>oldbuckets\<close> at 24, \<open>nevacuate\<close> at 32, \<open>overflow\<close> at 40.
\<close>

definition hmapSize :: nat where
  "hmapSize = 48"

definition hmapOffset :: nat where
  "hmapOffset = 8"

text \<open>
  \<^verbatim>\<open>mapFreeze(dataptr)\<close>: map \<open>pageSize + (size - offset)\<close> bytes, copy the header to
  \<open>newMem[pageSize - offset:]\<close>, protect \<open>newMem[pageSize:]\<close>, return the address of the
  copy.
\<close>

definition mapFreeze :: "state \<Rightarrow> addr \<Rightarrow> addr result" where
  "mapFreeze s dataptr =
     (case Mmap s (pageSize + (hmapSize - hmapOffset)) of
        None \<Rightarrow> Panic s ''mmap''
      | Some (s1, newMem) \<Rightarrow>
         (let mapMem = newMem + (pageSize - hmapOffset) in
          case copyBytes s1 mapMem dataptr hmapSize of
            None \<Rightarrow> badRead s1 dataptr
          | Some s2 \<Rightarrow>
             (case Mprotect s2 (newMem + pageSize) (hmapSize - hmapOffset) of
                None \<Rightarrow> Panic s2 ''mprotect''
              | Some s3 \<Rightarrow> Ok s3 mapMem)))"

section \<open>Types, as reflection shows them\<close>

text \<open>
  The shape of a value as package \<^verbatim>\<open>reflect\<close> reports it. A struct field carries its
  \<^verbatim>\<open>PkgPath\<close> (empty exactly for an exported name) and its \<^verbatim>\<open>Anonymous\<close> flag
  (an embedded field). Types are finite trees: a recursive named type, and with it a
  cyclic value, has no representation here.
\<close>

datatype gotype =
    TBool | TInt | TUint8 | TString | TInterface | TChan
  | TPtr gotype
  | TArray nat gotype
  | TSlice gotype
  | TMap gotype gotype
  | TStruct "field list"
and field = Field (fname: string) (pkgPath: string) (anonymous: bool) (ftype: gotype)

datatype kind = KBool | KInt | KUint8 | KString | KInterface | KChan | KPtr | KArray | KSlice | KMap | KStruct

fun kindOf :: "gotype \<Rightarrow> kind" where
  "kindOf TBool = KBool"
| "kindOf TInt = KInt"
| "kindOf TUint8 = KUint8"
| "kindOf TString = KString"
| "kindOf TInterface = KInterface"
| "kindOf TChan = KChan"
| "kindOf (TPtr t) = KPtr"
| "kindOf (TArray n t) = KArray"
| "kindOf (TSlice t) = KSlice"
| "kindOf (TMap k e) = KMap"
| "kindOf (TStruct fs) = KStruct"

definition alignUp :: "nat \<Rightarrow> nat \<Rightarrow> nat" where
  "alignUp off al = ((off + al - 1) div al) * al"

text \<open>
  \<^verbatim>\<open>Type.Align\<close> and \<^verbatim>\<open>Type.Size\<close> for the 64-bit layout. \<open>layout off lz fs\<close> places the
  fields \<open>fs\<close> from offset \<open>off\<close> and returns the offset after the last one together
  with the offset of the last field of size zero (\<open>lz\<close> so far); a record that ends in a
  field of size zero gets one more byte before it is rounded up to its alignment, so
  that the address of that field stays inside the record.
\<close>

fun alignOf :: "gotype \<Rightarrow> nat" and alignFields :: "field list \<Rightarrow> nat" where
  "alignOf TBool = 1"
| "alignOf TInt = 8"
| "alignOf TUint8 = 1"
| "alignOf TString = 8"
| "alignOf TInterface = 8"
| "alignOf TChan = 8"
| "alignOf (TPtr t) = 8"
| "alignOf (TArray n t) = alignOf t"
| "alignOf (TSlice t) = 8"
| "alignOf (TMap k e) = 8"
| "alignOf (TStruct fs) = alignFields fs"
| "alignFields [] = 1"
| "alignFields (Field n p a t # fs) = max (alignOf t) (alignFields fs)"

fun sizeOf :: "gotype \<Rightarrow> nat" and layout :: "nat \<Rightarrow> nat \<Rightarrow> field list \<Rightarrow> nat \<times> nat" where
  "sizeOf TBool = 1"
| "sizeOf TInt = 8"
| "sizeOf TUint8 = 1"
| "sizeOf TString = 16"
| "sizeOf TInterface = 16"
| "sizeOf TChan = 8"
| "sizeOf (TPtr t) = 8"
| "sizeOf (TArray n t) = n * sizeOf t"
| "sizeOf (TSlice t) = 24"
| "sizeOf (TMap k e) = 8"
| "sizeOf (TStruct fs) =
     (case layout 0 0 fs of (e, lz) \<Rightarrow>
        alignUp (if 0 < e \<and> e = lz then e + 1 else e) (alignFields fs))"
| "layout off lz [] = (off, lz)"
| "layout off lz (Field n p a t # fs) =
     layout (alignUp off (alignOf t) + sizeOf t)
       (if sizeOf t = 0 then alignUp off (alignOf t) + sizeOf t else lz) fs"

section \<open>Interface values and the single-level entry points\<close>

text \<open>
  A \<^verbatim>\<open>uintptr\<close> in memory: eight bytes, least significant first.
\<close>

fun putLE :: "nat \<Rightarrow> nat \<Rightarrow> byte list" where
  "putLE 0 n = []"
| "putLE (Suc k) n = word_of_nat (n mod 256) # putLE k (n div 256)"

fun getLE :: "byte list \<Rightarrow> nat" where
  "getLE [] = 0"
| "getLE (b # bs) = unat b + 256 * getLE bs"

definition putUintptr :: "nat \<Rightarrow> byte list" where
  "putUintptr n = putLE 8 n"

definition getUintptr :: "byte list \<Rightarrow> nat" where
  "getUintptr bs = getLE (take 8 bs)"

text \<open>
  An \<^verbatim>\<open>interface{}\<close> argument: \<open>NilIface\<close>, or a dynamic type with the bytes of the value
  it holds. For a pointer or a map these are the eight bytes of the address (the
  interface's data word holds it directly); for a slice they are the 24 bytes of the
  header (data, len, cap) that the data word refers to.
\<close>

datatype iface = NilIface | Iface gotype "byte list"

definition sliceData :: "byte list \<Rightarrow> nat" where
  "sliceData hdr = getUintptr hdr"

definition sliceLen :: "byte list \<Rightarrow> nat" where
  "sliceLen hdr = getUintptr (drop 8 hdr)"

definition sliceCap :: "byte list \<Rightarrow> nat" where
  "sliceCap hdr = getUintptr (drop 16 hdr)"

text \<open>
  \<^verbatim>\<open>Pointer(v)\<close>: \<^verbatim>\<open>ptrs[1] = copyAndFreeze(ptrs[1], typ.Elem().Size())\<close>.
\<close>

definition Pointer :: "state \<Rightarrow> iface \<Rightarrow> iface result" where
  "Pointer s v =
     (case v of
        NilIface \<Rightarrow> Ok s v
      | Iface typ dat \<Rightarrow>
         (case typ of
            TPtr t \<Rightarrow>
              (case copyAndFreeze s (getUintptr dat) (sizeOf t) of
                 Ok s1 p \<Rightarrow> Ok s1 (Iface typ (putUintptr p))
               | Panic s1 m \<Rightarrow> Panic s1 m
               | Fault \<Rightarrow> Fault)
          | _ \<Rightarrow> Panic s ''Pointer called on non-pointer type''))"

text \<open>
  \<^verbatim>\<open>Slice(v)\<close>: \<^verbatim>\<open>slice[0] = copyAndFreeze(slice[0], elemSize * len)\<close>; the other two
  words of the header stay as they are.
\<close>

definition Slice :: "state \<Rightarrow> iface \<Rightarrow> iface result" where
  "Slice s v =
     (case v of
        NilIface \<Rightarrow> Ok s v
      | Iface typ dat \<Rightarrow>
         (case typ of
            TSlice t \<Rightarrow>
              (case copyAndFreeze s (sliceData dat) (sizeOf t * sliceLen dat) of
                 Ok s1 p \<Rightarrow> Ok s1 (Iface typ (putUintptr p @ drop 8 dat))
               | Panic s1 m \<Rightarrow> Panic s1 m
               | Fault \<Rightarrow> Fault)
          | _ \<Rightarrow> Panic s ''Slice called on non-slice type''))"

text \<open>\<^verbatim>\<open>Map(v)\<close>: \<^verbatim>\<open>ptrs[1] = mapFreeze(ptrs[1])\<close>.\<close>

definition Map :: "state \<Rightarrow> iface \<Rightarrow> iface result" where
  "Map s v =
     (case v of
        NilIface \<Rightarrow> Ok s v
      | Iface typ dat \<Rightarrow>
         (case typ of
            TMap k e \<Rightarrow>
              (case mapFreeze s (getUintptr dat) of
                 Ok s1 p \<Rightarrow> Ok s1 (Iface typ (putUintptr p))
               | Panic s1 m \<Rightarrow> Panic s1 m
               | Fault \<Rightarrow> Fault)
          | _ \<Rightarrow> Panic s ''Map called on non-map type''))"

section \<open>Reflection values\<close>

text \<open>
  A \<^verbatim>\<open>reflect.Value\<close>: its type, where its data is, and the two read-only flags that
  package \<^verbatim>\<open>reflect\<close> sets on a value reached through an unexported field
  (\<^verbatim>\<open>flagStickyRO\<close> for a named field, \<^verbatim>\<open>flagEmbedRO\<close> for an embedded one). An
  addressable value is \<open>Indir a\<close>, its data lives at \<open>a\<close>; any other value is a private
  copy \<open>Direct bs\<close> of its bytes.
\<close>

datatype loc = Direct "byte list" | Indir addr

datatype flags = Flags (stickyRO: bool) (embedRO: bool)

datatype rvalue = RV gotype loc flags

definition noFlags :: flags where
  "noFlags = Flags False False"

definition isRO :: "flags \<Rightarrow> bool" where
  "isRO f = (stickyRO f \<or> embedRO f)"

text \<open>\<^verbatim>\<open>flag.ro()\<close>: any read-only flag becomes \<^verbatim>\<open>flagStickyRO\<close>.\<close>

definition roOf :: "flags \<Rightarrow> flags" where
  "roOf f = Flags (isRO f) False"

definition valueBytes :: "state \<Rightarrow> gotype \<Rightarrow> loc \<Rightarrow> byte list option" where
  "valueBytes s t l =
     (case l of
        Direct bs \<Rightarrow> Some bs
      | Indir a \<Rightarrow> if readable s a (sizeOf t) then Some (loadBytes s a (sizeOf t)) else None)"

text \<open>
  \<^verbatim>\<open>v.Set(x)\<close>: \<^verbatim>\<open>v.mustBeAssignable()\<close>, \<^verbatim>\<open>x.mustBeExported()\<close>, then a
  \<^verbatim>\<open>typedmemmove\<close> of the bytes of \<open>x\<close> to the address of \<open>v\<close>. \<^verbatim>\<open>typedmemmove\<close>
  returns at once when source and destination are the same address: then nothing is
  read and nothing is written.
\<close>

definition SetV :: "state \<Rightarrow> rvalue \<Rightarrow> rvalue \<Rightarrow> unit result" where
  "SetV s v x =
     (case v of RV t l f \<Rightarrow>
        if isRO f then Panic s ''reflect: reflect.Value.Set using value obtained using unexported field''
        else (case l of
          Direct bs \<Rightarrow> Panic s ''reflect: reflect.Value.Set using unaddressable value''
        | Indir a \<Rightarrow>
           (case x of RV tx lx fx \<Rightarrow>
              if isRO fx then Panic s ''reflect: reflect.Value.Set using value obtained using unexported field''
              else if lx = Indir a then Ok s ()
              else (case valueBytes s tx lx of
                None \<Rightarrow> Fault
              | Some bs \<Rightarrow>
                 (case storeBytes s a bs of
                    None \<Rightarrow> Fault
                  | Some s1 \<Rightarrow> Ok s1 ())))))"

text \<open>\<^verbatim>\<open>v.Interface()\<close>: refused for a read-only value; otherwise the value is boxed.\<close>

definition InterfaceOf :: "state \<Rightarrow> rvalue \<Rightarrow> iface result" where
  "InterfaceOf s v =
     (case v of RV t l f \<Rightarrow>
        if isRO f then Panic s ''reflect.Value.Interface: cannot return value obtained from unexported field or method''
        else (case valueBytes s t l of
          None \<Rightarrow> Fault
        | Some bs \<Rightarrow> Ok s (Iface t bs)))"

text \<open>
  \<^verbatim>\<open>reflect.ValueOf\<close> applied to what an entry point returned. The entry points return
  \<open>NilIface\<close> only for a \<open>NilIface\<close> argument, which the walker never passes; the zero
  Value of that case is unusable and the model stops there.
\<close>

definition ValueOf :: "iface result \<Rightarrow> rvalue result" where
  "ValueOf r =
     (case r of
        Ok s (Iface t bs) \<Rightarrow> Ok s (RV t (Direct bs) noFlags)
      | Ok s NilIface \<Rightarrow> Panic s ''reflect: call of reflect.Value.Type on zero Value''
      | Panic s m \<Rightarrow> Panic s m
      | Fault \<Rightarrow> Fault)"

subsection \<open>Maps of the runtime, through their reflection interface\<close>

text \<open>
  A map value is the address of its header; the header's \<open>buckets\<close> word (offset 16)
  names the bucket array, whose entries are kept in \<open>buckets\<close>; \<open>count\<close> is the first
  word. Objects of the Go heap are carved from \<open>brk\<close>, eight-byte aligned and zeroed.
\<close>

definition goNew :: "state \<Rightarrow> nat \<Rightarrow> state \<times> addr" where
  "goNew s n =
     (let a = alignUp (brk s) 8 in
      (s\<lparr>mem := (\<lambda>x. if a \<le> x \<and> x < a + n then 0 else mem s x),
         prot := (\<lambda>x. if a \<le> x \<and> x < a + n then ReadWrite else prot s x),
         brk := a + n\<rparr>, a))"

definition MakeMap :: "state \<Rightarrow> state \<times> addr" where
  "MakeMap s =
     (case goNew s hmapSize of (s1, m) \<Rightarrow>
      (case goNew s1 8 of (s2, b) \<Rightarrow>
        (s2\<lparr>mem := pokeBytes (mem s2) (m + 16) (putUintptr b),
            buckets := (buckets s2)(b := [])\<rparr>, m)))"

definition mapEntries :: "state \<Rightarrow> addr \<Rightarrow> (byte list \<times> byte list) list option" where
  "mapEntries s m =
     (if m = 0 then Some []
      else if readable s m hmapSize then Some (buckets s (getUintptr (loadBytes s (m + 16) 8)))
      else None)"

text \<open>
  \<^verbatim>\<open>v.SetMapIndex(key, val)\<close> on map \<open>m\<close>: the three values must not be read-only; the
  runtime's assignment writes the header and the bucket array.
\<close>

definition SetMapIndex :: "state \<Rightarrow> addr \<Rightarrow> rvalue \<Rightarrow> rvalue \<Rightarrow> unit result" where
  "SetMapIndex s m key val =
     (case key of RV tk lk fk \<Rightarrow>
      (case val of RV tv lv fv \<Rightarrow>
        if isRO fk \<or> isRO fv then Panic s ''reflect: reflect.Value.SetMapIndex using value obtained using unexported field''
        else if m = 0 then Panic s ''assignment to entry in nil map''
        else (case valueBytes s tk lk of
          None \<Rightarrow> Fault
        | Some kb \<Rightarrow>
           (case valueBytes s tv lv of
              None \<Rightarrow> Fault
            | Some vb \<Rightarrow>
               if \<not> writable s m hmapSize then Fault
               else let b = getUintptr (loadBytes s (m + 16) 8);
                        es = AList.update kb vb (buckets s b)
                    in Ok (s\<lparr>mem := pokeBytes (mem s) m (putUintptr (length es)),
                             buckets := (buckets s)(b := es)\<rparr>) ()))))"

section \<open>The recursive walker\<close>

definition hasPtrs :: "gotype \<Rightarrow> bool" where
  "hasPtrs t = (case kindOf t of
      KPtr \<Rightarrow> True | KArray \<Rightarrow> True | KSlice \<Rightarrow> True | KMap \<Rightarrow> True | KStruct \<Rightarrow> True
    | _ \<Rightarrow> False)"

text \<open>\<^verbatim>\<open>val.Index(i)\<close> of an array for every \<open>i < n\<close>, and \<^verbatim>\<open>val.Field(i)\<close> at offset \<open>ofs\<close>.\<close>

definition arrayElems :: "loc \<Rightarrow> nat \<Rightarrow> nat \<Rightarrow> loc list" where
  "arrayElems l n sz =
     (case l of
        Indir a \<Rightarrow> map (\<lambda>i. Indir (a + i * sz)) [0..<n]
      | Direct bs \<Rightarrow> map (\<lambda>i. Direct (take sz (drop (i * sz) bs))) [0..<n])"

definition fieldLoc :: "loc \<Rightarrow> nat \<Rightarrow> nat \<Rightarrow> loc" where
  "fieldLoc l ofs sz =
     (case l of
        Indir a \<Rightarrow> Indir (a + ofs)
      | Direct bs \<Rightarrow> Direct (take sz (drop ofs bs)))"

text \<open>
  The flags of \<^verbatim>\<open>val.Field(i)\<close>: the sticky flag is inherited, the embedded one is not;
  an unexported field adds \<^verbatim>\<open>flagEmbedRO\<close> when embedded and \<^verbatim>\<open>flagStickyRO\<close> otherwise.
\<close>

definition fieldFlags :: "flags \<Rightarrow> string \<Rightarrow> bool \<Rightarrow> flags" where
  "fieldFlags f p a = Flags (stickyRO f \<or> (p \<noteq> [] \<and> \<not> a)) (p \<noteq> [] \<and> a)"

text \<open>
  \<^verbatim>\<open>object(val)\<close>, with the test that decides whether a pointee, an element or a field
  is recursed into as the parameter \<open>g\<close>: the source's walker is \<open>walk hasPtrs\<close>. Each
  loop of the source is a function of its own: \<open>walkEach\<close> runs
  \<^verbatim>\<open>val.Index(i).Set(object(val.Index(i)))\<close> over the elements, \<open>walkFields\<close> runs over
  the fields with the running offset, \<open>walkEntries\<close> rebuilds a map key by key. A
  slice's header and a map's address are read when the loop starts.
\<close>

function (sequential) walk :: "(gotype \<Rightarrow> bool) \<Rightarrow> state \<Rightarrow> gotype \<Rightarrow> loc \<Rightarrow> flags \<Rightarrow> rvalue result"
and walkEach :: "(gotype \<Rightarrow> bool) \<Rightarrow> state \<Rightarrow> gotype \<Rightarrow> flags \<Rightarrow> loc list \<Rightarrow> unit result"
and walkFields :: "(gotype \<Rightarrow> bool) \<Rightarrow> state \<Rightarrow> loc \<Rightarrow> flags \<Rightarrow> nat \<Rightarrow> field list \<Rightarrow> unit result"
and walkEntries :: "(gotype \<Rightarrow> bool) \<Rightarrow> state \<Rightarrow> gotype \<Rightarrow> gotype \<Rightarrow> flags \<Rightarrow> addr \<Rightarrow> addr \<Rightarrow> byte list list \<Rightarrow> unit result"
where
  "walk g s (TPtr t) l f =
     (case valueBytes s (TPtr t) l of
        None \<Rightarrow> Fault
      | Some bs \<Rightarrow>
         if getUintptr bs = 0 then Ok s (RV (TPtr t) l f)
         else (case (if g t
                    then (case walk g s t (Indir (getUintptr bs)) f of
                            Ok s1 x \<Rightarrow> SetV s1 (RV t (Indir (getUintptr bs)) f) x
                          | Panic s1 m \<Rightarrow> Panic s1 m
                          | Fault \<Rightarrow> Fault)
                    else Ok s ()) of
           Ok s2 u \<Rightarrow>
             (case InterfaceOf s2 (RV (TPtr t) l f) of
                Ok s3 i \<Rightarrow> ValueOf (Pointer s3 i)
              | Panic s3 m \<Rightarrow> Panic s3 m
              | Fault \<Rightarrow> Fault)
         | Panic s2 m \<Rightarrow> Panic s2 m
         | Fault \<Rightarrow> Fault))"
| "walk g s (TArray n t) l f =
     (case (if g t then walkEach g s t f (arrayElems l n (sizeOf t)) else Ok s ()) of
        Ok s1 u \<Rightarrow> Ok s1 (RV (TArray n t) l f)
      | Panic s1 m \<Rightarrow> Panic s1 m
      | Fault \<Rightarrow> Fault)"
| "walk g s (TSlice t) l f =
     (case (if g t
            then (case valueBytes s (TSlice t) l of
                    None \<Rightarrow> Fault
                  | Some hdr \<Rightarrow>
                      walkEach g s t f
                        (map (\<lambda>i. Indir (sliceData hdr + i * sizeOf t)) [0..<sliceLen hdr]))
            else Ok s ()) of
        Ok s1 u \<Rightarrow>
          (case InterfaceOf s1 (RV (TSlice t) l f) of
             Ok s2 i \<Rightarrow> ValueOf (Slice s2 i)
           | Panic s2 m \<Rightarrow> Panic s2 m
           | Fault \<Rightarrow> Fault)
      | Panic s1 m \<Rightarrow> Panic s1 m
      | Fault \<Rightarrow> Fault)"
| "walk g s (TMap k e) l f =
     (case (if hasPtrs e \<or> hasPtrs k
            then (case MakeMap s of (s1, newMap) \<Rightarrow>
                  (case valueBytes s1 (TMap k e) l of
                    None \<Rightarrow> Fault
                  | Some bs \<Rightarrow>
                     (case mapEntries s1 (getUintptr bs) of
                        None \<Rightarrow> Fault
                      | Some es \<Rightarrow>
                         (case walkEntries g s1 k e f (getUintptr bs) newMap (map fst es) of
                            Ok s2 u \<Rightarrow> Ok s2 (RV (TMap k e) (Direct (putUintptr newMap)) noFlags)
                          | Panic s2 m \<Rightarrow> Panic s2 m
                          | Fault \<Rightarrow> Fault))))
            else Ok s (RV (TMap k e) l f)) of
        Ok s3 val \<Rightarrow>
          (case InterfaceOf s3 val of
             Ok s4 i \<Rightarrow> ValueOf (Map s4 i)
           | Panic s4 m \<Rightarrow> Panic s4 m
           | Fault \<Rightarrow> Fault)
      | Panic s3 m \<Rightarrow> Panic s3 m
      | Fault \<Rightarrow> Fault)"
| "walk g s (TStruct fs) l f =
     (case walkFields g s l f 0 fs of
        Ok s1 u \<Rightarrow> Ok s1 (RV (TStruct fs) l f)
      | Panic s1 m \<Rightarrow> Panic s1 m
      | Fault \<Rightarrow> Fault)"
| "walk g s t l f = Ok s (RV t l f)"
| "walkEach g s t f [] = Ok s ()"
| "walkEach g s t f (c # cs) =
     (case walk g s t c f of
        Ok s1 x \<Rightarrow>
          (case SetV s1 (RV t c f) x of
             Ok s2 u \<Rightarrow> walkEach g s2 t f cs
           | Panic s2 m \<Rightarrow> Panic s2 m
           | Fault \<Rightarrow> Fault)
      | Panic s1 m \<Rightarrow> Panic s1 m
      | Fault \<Rightarrow> Fault)"
| "walkFields g s l f off [] = Ok s ()"
| "walkFields g s l f off (Field n p a t # fs) =
     (if \<not> (p \<noteq> [] \<and> \<not> a) \<and> g t
      then (case walk g s t (fieldLoc l (alignUp off (alignOf t)) (sizeOf t)) (fieldFlags f p a) of
              Ok s1 x \<Rightarrow>
                (case SetV s1 (RV t (fieldLoc l (alignUp off (alignOf t)) (sizeOf t)) (fieldFlags f p a)) x of
                   Ok s2 u \<Rightarrow> walkFields g s2 l f (alignUp off (alignOf t) + sizeOf t) fs
                 | Panic s2 m \<Rightarrow> Panic s2 m
                 | Fault \<Rightarrow> Fault)
            | Panic s1 m \<Rightarrow> Panic s1 m
            | Fault \<Rightarrow> Fault)
      else walkFields g s l f (alignUp off (alignOf t) + sizeOf t) fs)"
| "walkEntries g s k e f m newMap [] = Ok s ()"
| "walkEntries g s k e f m newMap (kb # kbs) =
     (case walk g s k (Direct kb) (roOf f) of
        Ok s1 key \<Rightarrow>
          (case mapEntries s1 m of
             None \<Rightarrow> Fault
           | Some es \<Rightarrow>
              (case map_of es kb of
                 None \<Rightarrow> Panic s1 ''reflect: call of reflect.Value.Type on zero Value''
               | Some vb \<Rightarrow>
                  (case walk g s1 e (Direct vb) (roOf f) of
                     Ok s2 val \<Rightarrow>
                       (case SetMapIndex s2 newMap key val of
                          Ok s3 u \<Rightarrow> walkEntries g s3 k e f m newMap kbs
                        | Panic s3 m' \<Rightarrow> Panic s3 m'
                        | Fault \<Rightarrow> Fault)
                   | Panic s2 m' \<Rightarrow> Panic s2 m'
                   | Fault \<Rightarrow> Fault)))
      | Panic s1 m' \<Rightarrow> Panic s1 m'
      | Fault \<Rightarrow> Fault)"
  by pat_completeness auto

termination
  by (relation "inv_image (less_than <*lex*> less_than)
        (\<lambda>x. case x of
           Inl (Inl (g, s, t, l, f)) \<Rightarrow> (size t, 0)
         | Inl (Inr (g, s, t, f, cs)) \<Rightarrow> (size t, Suc (length cs))
         | Inr (Inl (g, s, l, f, off, fs)) \<Rightarrow> (size_list size fs, Suc 0)
         | Inr (Inr (g, s, k, e, f, m, newMap, kbs)) \<Rightarrow> (max (size k) (size e), Suc (length kbs)))")
     auto

definition object :: "state \<Rightarrow> rvalue \<Rightarrow> rvalue result" where
  "object s val = (case val of RV t l f \<Rightarrow> walk hasPtrs s t l f)"

text \<open>
  \<^verbatim>\<open>Object(v)\<close>: \<open>nil\<close> is returned as it is; a pointer, a slice or a map is walked;
  anything else panics.
\<close>

definition Object :: "state \<Rightarrow> iface \<Rightarrow> iface result" where
  "Object s v =
     (case v of
        NilIface \<Rightarrow> Ok s v
      | Iface t bs \<Rightarrow>
         if kindOf t = KPtr \<or> kindOf t = KSlice \<or> kindOf t = KMap
         then (case object s (RV t (Direct bs) noFlags) of
                 Ok s1 r \<Rightarrow> InterfaceOf s1 r
               | Panic s1 m \<Rightarrow> Panic s1 m
               | Fault \<Rightarrow> Fault)
         else Panic s ''Object called on invalid type'')"

text \<open>
  The walker the specification compares with: it recurses into every pointee, element
  and visible field, whatever its shape.
\<close>

definition objectNaive :: "state \<Rightarrow> rvalue \<Rightarrow> rvalue result" where
  "objectNaive s val = (case val of RV t l f \<Rightarrow> walk (\<lambda>t. True) s t l f)"

section \<open>States, outcomes and examples\<close>

text \<open>
  In a well-formed state nothing at or above \<open>brk\<close> is mapped, so that fresh pages are
  fresh.
\<close>

definition wf :: "state \<Rightarrow> bool" where
  "wf s = (\<forall>a. prot s (brk s + a) = Unmapped)"

fun stateOf :: "'a result \<Rightarrow> state option" where
  "stateOf (Ok s x) = Some s"
| "stateOf (Panic s m) = Some s"
| "stateOf Fault = None"

fun valueOf :: "'a result \<Rightarrow> 'a option" where
  "valueOf (Ok s x) = Some x"
| "valueOf (Panic s m) = None"
| "valueOf Fault = None"

fun panicked :: "'a result \<Rightarrow> bool" where
  "panicked (Ok s x) = False"
| "panicked (Panic s m) = True"
| "panicked Fault = False"

text \<open>What the protection of an address, and the regions mapped, are after a call.\<close>

definition protAfter :: "'a result \<Rightarrow> addr \<Rightarrow> perm option" where
  "protAfter r a = map_option (\<lambda>s. prot s a) (stateOf r)"

definition bytesAfter :: "'a result \<Rightarrow> addr \<Rightarrow> nat \<Rightarrow> byte list option" where
  "bytesAfter r a n = map_option (\<lambda>s. loadBytes s a n) (stateOf r)"

definition mmapsAfter :: "'a result \<Rightarrow> (addr \<times> nat) list option" where
  "mmapsAfter r = map_option mmaps (stateOf r)"

text \<open>Calling an entry point on what an earlier call returned.\<close>

fun andThen :: "iface result \<Rightarrow> (state \<Rightarrow> iface \<Rightarrow> iface result) \<Rightarrow> iface result" where
  "andThen (Ok s x) k = k s x"
| "andThen (Panic s m) k = Panic s m"
| "andThen Fault k = Fault"

text \<open>
  A small process image for the examples: the Go heap occupies \<open>[4096, 65536)\<close>, all
  of it writable and zero, and nothing has been mapped yet.
\<close>

definition heap0 :: state where
  "heap0 = \<lparr>mem = (\<lambda>a. 0),
            prot = (\<lambda>a. if 4096 \<le> a \<and> a < 65536 then ReadWrite else Unmapped),
            brk = 65536, mmaps = [], buckets = (\<lambda>a. [])\<rparr>"

definition poke :: "state \<Rightarrow> addr \<Rightarrow> byte list \<Rightarrow> state" where
  "poke s a bs = s\<lparr>mem := pokeBytes (mem s) a bs\<rparr>"

text \<open>\<^verbatim>\<open>x := 3\<close> at 8192, and the interface value \<^verbatim>\<open>&x\<close>.\<close>

definition heapInt :: state where
  "heapInt = poke heap0 8192 (putUintptr 3)"

definition ptrInt :: iface where
  "ptrInt = Iface (TPtr TInt) (putUintptr 8192)"

text \<open>A slice header with data pointer \<open>p\<close>, length \<open>l\<close> and capacity \<open>c\<close>.\<close>

definition sliceHdr :: "nat \<Rightarrow> nat \<Rightarrow> nat \<Rightarrow> byte list" where
  "sliceHdr p l c = putUintptr p @ putUintptr l @ putUintptr c"

text \<open>An empty map \<^verbatim>\<open>map[int]int{}\<close>: its header, all zero, is at 8192 in \<open>heap0\<close>.\<close>

definition emptyMap :: iface where
  "emptyMap = Iface (TMap TInt TInt) (putUintptr 8192)"

text \<open>
  \<open>frame s s'\<close>: from \<open>s\<close> to \<open>s'\<close> memory was only added; what was handed out in
  \<open>s\<close> keeps its protection, and what was not writable in \<open>s\<close> keeps its contents.
\<close>

definition frame :: "state \<Rightarrow> state \<Rightarrow> bool" where
  "frame s s' =
     (wf s' \<and> brk s \<le> brk s' \<and> (\<forall>a. a < brk s \<longrightarrow> prot s' a = prot s a) \<and>
      (\<forall>a. a < brk s \<and> prot s a \<noteq> ReadWrite \<longrightarrow> mem s' a = mem s a))"

text \<open>
  The state that \<open>copyAndFreeze s p n\<close> leaves when it succeeds, in closed form: a new
  read-only mapping at \<open>roundup (brk s)\<close> that starts with the \<open>n\<close> bytes found at \<open>p\<close>.
\<close>

definition afterFreeze :: "state \<Rightarrow> addr \<Rightarrow> nat \<Rightarrow> state" where
  "afterFreeze s p n =
     s\<lparr>mem := (\<lambda>a. if roundup (brk s) \<le> a \<and> a < roundup (brk s) + roundup n
                    then (if a < roundup (brk s) + n then mem s (p + (a - roundup (brk s))) else 0)
                    else mem s a),
       prot := (\<lambda>a. if roundup (brk s) \<le> a \<and> a < roundup (brk s) + roundup n
                     then ReadOnly else prot s a),
       brk := roundup (brk s) + roundup n,
       mmaps := (roundup (brk s), n) # mmaps s\<rparr>"

text \<open>
  \<^verbatim>\<open>struct { F *int; g *int }\<close> at 8192, with \<open>F\<close> pointing to 8300 and the unexported
  \<open>g\<close> to 8400, and the interface value of a pointer to it.
\<close>

definition tRec :: gotype where
  "tRec = TStruct [Field ''F'' [] False (TPtr TInt), Field ''g'' ''freeze'' False (TPtr TInt)]"

definition heapRec :: state where
  "heapRec = poke (poke heap0 8192 (putUintptr 8300)) 8200 (putUintptr 8400)"

definition ptrRec :: iface where
  "ptrRec = Iface (TPtr tRec) (putUintptr 8192)"

text \<open>
  \<^verbatim>\<open>type inner struct { P *int }\<close> embedded, as a field of unexported type, in
  \<^verbatim>\<open>struct { inner }\<close> at 8192, with \<open>P\<close> pointing to 8300.
\<close>

definition tInner :: gotype where
  "tInner = TStruct [Field ''P'' [] False (TPtr TInt)]"

definition tOuter :: gotype where
  "tOuter = TStruct [Field ''inner'' ''freeze'' True tInner]"

definition heapEmb :: state where
  "heapEmb = poke heap0 8192 (putUintptr 8300)"

definition ptrOuter :: iface where
  "ptrOuter = Iface (TPtr tOuter) (putUintptr 8192)"

text \<open>
  \<^verbatim>\<open>type myint int\<close> embedded in \<^verbatim>\<open>struct { myint }\<close> at 8192 in \<open>heap0\<close>, and the
  reflection values of a pointer to it and of \<^verbatim>\<open>&x\<close> in \<open>heapInt\<close>.
\<close>

definition tEmbInt :: gotype where
  "tEmbInt = TStruct [Field ''myint'' ''freeze'' True TInt]"

definition valEmbInt :: rvalue where
  "valEmbInt = RV (TPtr tEmbInt) (Direct (putUintptr 8192)) noFlags"

definition valInt :: rvalue where
  "valInt = RV (TPtr TInt) (Direct (putUintptr 8192)) noFlags"

section \<open>Bytes, pages and the primitives\<close>

lemma readable_iff: "readable s a n \<longleftrightarrow> (\<forall>i<n. prot s (a + i) \<noteq> Unmapped)"
  by (auto simp: readable_def list_all_iff)

lemma writable_iff: "writable s a n \<longleftrightarrow> (\<forall>i<n. prot s (a + i) = ReadWrite)"
  by (auto simp: writable_def list_all_iff)

lemma pageSize_pos: "0 < pageSize"
  by (simp add: pageSize_def)

lemma roundup_ge: "n \<le> roundup n"
proof -
  let ?m = "n + pageSize - 1"
  have "?m div pageSize * pageSize + ?m mod pageSize = ?m" by simp
  moreover have "?m mod pageSize < pageSize" using pageSize_pos by simp
  ultimately have "n \<le> ?m div pageSize * pageSize" by linarith
  then show ?thesis by (simp add: roundup_def)
qed

lemma roundup_aligned: "roundup n mod pageSize = 0"
  by (simp add: roundup_def)

lemma roundup_page_add: "roundup (pageSize + n) = pageSize + roundup n"
proof -
  have "(pageSize + n + pageSize - 1) div pageSize = Suc ((n + pageSize - 1) div pageSize)"
    using pageSize_pos div_add_self1 [of pageSize "n + pageSize - 1"] by (simp add: add.assoc)
  then show ?thesis by (simp add: roundup_def)
qed

lemma length_putLE: "length (putLE k n) = k"
  by (induction k arbitrary: n) auto

lemma length_putUintptr: "length (putUintptr n) = 8"
  by (simp add: putUintptr_def length_putLE)

lemma unat_byte_mod: "unat (word_of_nat (n mod 256) :: byte) = n mod 256"
  by (simp add: unat_of_nat take_bit_eq_mod)

lemma getLE_putLE: "getLE (putLE k n) = n mod 256 ^ k"
proof (induction k arbitrary: n)
  case 0
  show ?case by simp
next
  case (Suc k)
  show ?case using Suc unat_byte_mod by (simp add: mod_mult2_eq)
qed

lemma getUintptr_putUintptr: "n < 2 ^ 64 \<Longrightarrow> getUintptr (putUintptr n) = n"
  by (simp add: getUintptr_def putUintptr_def length_putLE getLE_putLE)

lemma getUintptr_append: "getUintptr (putUintptr n @ bs) = getUintptr (putUintptr n)"
  by (simp add: getUintptr_def length_putUintptr)

lemma putLE_getLE: "length bs = k \<Longrightarrow> putLE k (getLE bs) = bs"
proof (induction bs arbitrary: k)
  case Nil
  then show ?case by simp
next
  case (Cons b bs)
  have u: "unat b < 256" using unsigned_less [of b] by simp
  obtain k' where k: "k = Suc k'" using Cons.prems by (cases k) auto
  have "putLE k' (getLE bs) = bs" using Cons k by simp
  moreover have "(unat b + 256 * getLE bs) mod 256 = unat b" using u by simp
  moreover have "(unat b + 256 * getLE bs) div 256 = getLE bs" using u by simp
  ultimately show ?case using k by simp
qed

lemma putUintptr_getUintptr: "8 \<le> length bs \<Longrightarrow> putUintptr (getUintptr bs) @ drop 8 bs = bs"
proof -
  assume "8 \<le> length bs"
  then have "length (take 8 bs) = 8" by simp
  then have "putLE 8 (getLE (take 8 bs)) = take 8 bs" by (rule putLE_getLE)
  then show ?thesis by (simp add: putUintptr_def getUintptr_def)
qed

lemma putLE8: "putLE 8 n =
    [word_of_nat (n mod 256), word_of_nat (n div 256 mod 256), word_of_nat (n div 256 div 256 mod 256),
     word_of_nat (n div 256 div 256 div 256 mod 256),
     word_of_nat (n div 256 div 256 div 256 div 256 mod 256),
     word_of_nat (n div 256 div 256 div 256 div 256 div 256 mod 256),
     word_of_nat (n div 256 div 256 div 256 div 256 div 256 div 256 mod 256),
     word_of_nat (n div 256 div 256 div 256 div 256 div 256 div 256 div 256 mod 256)]"
proof -
  have e: "(8::nat) = Suc (Suc (Suc (Suc (Suc (Suc (Suc (Suc 0)))))))" by simp
  show ?thesis by (subst e) (simp only: putLE.simps)
qed

lemma wf_iff: "wf s \<longleftrightarrow> (\<forall>a. brk s \<le> a \<longrightarrow> prot s a = Unmapped)"
proof
  assume w: "wf s"
  show "\<forall>a. brk s \<le> a \<longrightarrow> prot s a = Unmapped"
  proof (intro allI impI)
    fix a assume "brk s \<le> a"
    then have "a = brk s + (a - brk s)" by simp
    then show "prot s a = Unmapped" using w unfolding wf_def by metis
  qed
next
  assume "\<forall>a. brk s \<le> a \<longrightarrow> prot s a = Unmapped"
  then show "wf s" by (simp add: wf_def)
qed

lemma readable_below_brk: "wf s \<Longrightarrow> readable s a n \<Longrightarrow> i < n \<Longrightarrow> a + i < brk s"
  unfolding wf_iff readable_iff by (meson not_le)

lemma length_loadBytes: "length (loadBytes s a n) = n"
  by (simp add: loadBytes_def)

lemma nth_loadBytes: "i < n \<Longrightarrow> loadBytes s a n ! i = mem s (a + i)"
  by (simp add: loadBytes_def)

lemma loadBytes_cong: "(\<And>i. i < n \<Longrightarrow> mem s (a + i) = mem s' (b + i)) \<Longrightarrow> loadBytes s a n = loadBytes s' b n"
  by (simp add: loadBytes_def)

lemma copyAndFreeze_spec:
  assumes w: "wf s" and n: "0 < n" and r: "readable s src n"
  shows "\<exists>s'. copyAndFreeze s src n = Ok s' (roundup (brk s))
     \<and> mmaps s' = (roundup (brk s), n) # mmaps s
     \<and> brk s' = roundup (brk s) + roundup n
     \<and> buckets s' = buckets s
     \<and> prot s' = (\<lambda>a. if roundup (brk s) \<le> a \<and> a < roundup (brk s) + roundup n then ReadOnly else prot s a)
     \<and> mem s' = (\<lambda>a. if roundup (brk s) \<le> a \<and> a < roundup (brk s) + roundup n
                      then (if a < roundup (brk s) + n then mem s (src + (a - roundup (brk s))) else 0)
                      else mem s a)"
proof -
  define base where "base = roundup (brk s)"
  define s1 where "s1 = s\<lparr>mem := (\<lambda>a. if base \<le> a \<and> a < base + roundup n then 0 else mem s a),
                prot := (\<lambda>a. if base \<le> a \<and> a < base + roundup n then ReadWrite else prot s a),
                brk := base + roundup n,
                mmaps := (base, n) # mmaps s\<rparr>"
  have mm: "Mmap s n = Some (s1, base)"
    using n by (simp add: Mmap_def Let_def base_def s1_def)
  have below: "\<And>i. i < n \<Longrightarrow> src + i < base"
    using readable_below_brk [OF w r] roundup_ge [of "brk s"] by (fastforce simp: base_def)
  have r1: "readable s1 src n"
    using r by (simp add: readable_iff s1_def)
  have w1: "writable s1 base n"
    using roundup_ge [of n] by (auto simp: writable_iff s1_def)
  have ld: "loadBytes s1 src n = loadBytes s src n"
  proof (rule loadBytes_cong)
    fix i assume "i < n"
    then have "src + i < base" by (rule below)
    then show "mem s1 (src + i) = mem s (src + i)" by (simp add: s1_def)
  qed
  define s2 where "s2 = s1\<lparr>mem := pokeBytes (mem s1) base (loadBytes s src n)\<rparr>"
  have cp: "copyBytes s1 base src n = Some s2"
    using r1 w1 by (simp add: copyBytes_def storeBytes_def ld length_loadBytes s2_def)
  have al: "base mod pageSize = 0" by (simp add: base_def roundup_aligned)
  have r2: "readable s2 base (roundup n)"
    by (auto simp: readable_iff s2_def s1_def)
  define s3 where "s3 = s2\<lparr>prot := (\<lambda>x. if base \<le> x \<and> x < base + roundup n then ReadOnly else prot s2 x)\<rparr>"
  have mp: "Mprotect s2 base n = Some s3"
    using al r2 by (simp add: Mprotect_def s3_def)
  have res: "copyAndFreeze s src n = Ok s3 base"
    using n by (simp add: copyAndFreeze_def mm cp mp)
  have p3: "prot s3 = (\<lambda>a. if base \<le> a \<and> a < base + roundup n then ReadOnly else prot s a)"
    by (auto simp: s3_def s2_def s1_def fun_eq_iff)
  have m3: "mem s3 = (\<lambda>a. if base \<le> a \<and> a < base + roundup n
                      then (if a < base + n then mem s (src + (a - base)) else 0)
                      else mem s a)"
  proof (rule ext)
    fix a
    show "mem s3 a = (if base \<le> a \<and> a < base + roundup n
                      then (if a < base + n then mem s (src + (a - base)) else 0)
                      else mem s a)"
    proof (cases "base \<le> a \<and> a < base + n")
      case True
      then have "a - base < n" by arith
      with True roundup_ge [of n] show ?thesis
        by (simp add: s3_def s2_def pokeBytes_def length_loadBytes nth_loadBytes)
    next
      case False
      then show ?thesis
        by (auto simp: s3_def s2_def s1_def pokeBytes_def length_loadBytes)
    qed
  qed
  show ?thesis
  proof (intro exI conjI)
    show "copyAndFreeze s src n = Ok s3 (roundup (brk s))" using res by (simp add: base_def)
    show "mmaps s3 = (roundup (brk s), n) # mmaps s" by (simp add: s3_def s2_def s1_def base_def)
    show "brk s3 = roundup (brk s) + roundup n" by (simp add: s3_def s2_def s1_def base_def)
    show "buckets s3 = buckets s" by (simp add: s3_def s2_def s1_def)
    show "prot s3 = (\<lambda>a. if roundup (brk s) \<le> a \<and> a < roundup (brk s) + roundup n then ReadOnly else prot s a)"
      using p3 unfolding base_def .
    show "mem s3 = (\<lambda>a. if roundup (brk s) \<le> a \<and> a < roundup (brk s) + roundup n
                      then (if a < roundup (brk s) + n then mem s (src + (a - roundup (brk s))) else 0)
                      else mem s a)"
      using m3 unfolding base_def .
  qed
qed

lemma hmap_consts: "hmapOffset \<le> hmapSize" "hmapOffset \<le> pageSize" "0 < hmapSize"
  by (simp_all add: hmapOffset_def hmapSize_def pageSize_def)

lemma mapFreeze_spec:
  assumes w: "wf s" and r: "readable s src hmapSize"
  shows "\<exists>s'. mapFreeze s src = Ok s' (roundup (brk s) + (pageSize - hmapOffset))
     \<and> mmaps s' = (roundup (brk s), pageSize + (hmapSize - hmapOffset)) # mmaps s
     \<and> brk s' = roundup (brk s) + (pageSize + roundup (hmapSize - hmapOffset))
     \<and> buckets s' = buckets s
     \<and> prot s' = (\<lambda>a. if roundup (brk s) + pageSize \<le> a
                          \<and> a < roundup (brk s) + pageSize + roundup (hmapSize - hmapOffset) then ReadOnly
                        else if roundup (brk s) \<le> a \<and> a < roundup (brk s) + pageSize then ReadWrite
                        else prot s a)
     \<and> (\<forall>i<hmapSize. mem s' (roundup (brk s) + (pageSize - hmapOffset) + i) = mem s (src + i))
     \<and> (\<forall>a<roundup (brk s). mem s' a = mem s a)"
proof -
  define base where "base = roundup (brk s)"
  define tl where "tl = hmapSize - hmapOffset"
  define len where "len = pageSize + roundup tl"
  have rl: "roundup (pageSize + tl) = len" by (simp add: roundup_page_add len_def)
  have tlr: "tl \<le> roundup tl" by (rule roundup_ge)
  have hs: "hmapSize = hmapOffset + tl" using hmap_consts by (simp add: tl_def)
  define s1 where "s1 = s\<lparr>mem := (\<lambda>a. if base \<le> a \<and> a < base + len then 0 else mem s a),
                prot := (\<lambda>a. if base \<le> a \<and> a < base + len then ReadWrite else prot s a),
                brk := base + len,
                mmaps := (base, pageSize + tl) # mmaps s\<rparr>"
  have mm: "Mmap s (pageSize + tl) = Some (s1, base)"
    using pageSize_pos by (simp add: Mmap_def Let_def base_def s1_def rl)
  define mapMem where "mapMem = base + (pageSize - hmapOffset)"
  have below: "\<And>i. i < hmapSize \<Longrightarrow> src + i < base"
    using readable_below_brk [OF w r] roundup_ge [of "brk s"] by (fastforce simp: base_def)
  have r1: "readable s1 src hmapSize"
    using r by (simp add: readable_iff s1_def)
  have w1: "writable s1 mapMem hmapSize"
    using tlr hmap_consts by (auto simp: writable_iff s1_def mapMem_def len_def hs)
  have ld: "loadBytes s1 src hmapSize = loadBytes s src hmapSize"
  proof (rule loadBytes_cong)
    fix i assume "i < hmapSize"
    then have "src + i < base" by (rule below)
    then show "mem s1 (src + i) = mem s (src + i)" by (simp add: s1_def)
  qed
  define s2 where "s2 = s1\<lparr>mem := pokeBytes (mem s1) mapMem (loadBytes s src hmapSize)\<rparr>"
  have cp: "copyBytes s1 mapMem src hmapSize = Some s2"
    using r1 w1 by (simp add: copyBytes_def storeBytes_def ld length_loadBytes s2_def)
  have al: "(base + pageSize) mod pageSize = 0" by (simp add: base_def roundup_aligned)
  have r2: "readable s2 (base + pageSize) (roundup tl)"
    by (auto simp: readable_iff s2_def s1_def len_def)
  define s3 where "s3 = s2\<lparr>prot := (\<lambda>x. if base + pageSize \<le> x \<and> x < base + pageSize + roundup tl
                                       then ReadOnly else prot s2 x)\<rparr>"
  have mp: "Mprotect s2 (base + pageSize) tl = Some s3"
    using al r2 by (simp add: Mprotect_def s3_def)
  have res: "mapFreeze s src = Ok s3 mapMem"
    using mm cp mp by (simp add: mapFreeze_def tl_def [symmetric] mapMem_def [symmetric] Let_def)
  have p3: "prot s3 = (\<lambda>a. if base + pageSize \<le> a \<and> a < base + pageSize + roundup tl then ReadOnly
                        else if base \<le> a \<and> a < base + pageSize then ReadWrite
                        else prot s a)"
    by (auto simp: s3_def s2_def s1_def fun_eq_iff len_def)
  have m3: "\<forall>i<hmapSize. mem s3 (mapMem + i) = mem s (src + i)"
    by (simp add: s3_def s2_def pokeBytes_def length_loadBytes nth_loadBytes)
  have m4: "\<forall>a<base. mem s3 a = mem s a"
    by (simp add: s3_def s2_def s1_def pokeBytes_def mapMem_def)
  show ?thesis
  proof (intro exI conjI)
    show "mapFreeze s src = Ok s3 (roundup (brk s) + (pageSize - hmapOffset))"
      using res by (simp add: base_def mapMem_def)
    show "mmaps s3 = (roundup (brk s), pageSize + (hmapSize - hmapOffset)) # mmaps s"
      by (simp add: s3_def s2_def s1_def base_def tl_def)
    show "brk s3 = roundup (brk s) + (pageSize + roundup (hmapSize - hmapOffset))"
      by (simp add: s3_def s2_def s1_def base_def len_def tl_def)
    show "buckets s3 = buckets s" by (simp add: s3_def s2_def s1_def)
    show "prot s3 = (\<lambda>a. if roundup (brk s) + pageSize \<le> a
                          \<and> a < roundup (brk s) + pageSize + roundup (hmapSize - hmapOffset) then ReadOnly
                        else if roundup (brk s) \<le> a \<and> a < roundup (brk s) + pageSize then ReadWrite
                        else prot s a)"
      using p3 unfolding base_def tl_def .
    show "\<forall>i<hmapSize. mem s3 (roundup (brk s) + (pageSize - hmapOffset) + i) = mem s (src + i)"
      using m3 unfolding mapMem_def base_def .
    show "\<forall>a<roundup (brk s). mem s3 a = mem s a"
      using m4 unfolding base_def .
  qed
qed

section \<open>The single-level entry points\<close>

lemma upt8: "[0..<8] = [0, 1, 2, 3, 4, 5, 6, 7]"
  by (simp add: upt_conv_Cons)

lemma wf_heap0: "wf heap0"
  by (simp add: wf_def heap0_def)

lemma wf_poke: "wf (poke s a bs) = wf s"
  by (simp add: wf_def poke_def)

lemma roundup_65536: "roundup 65536 = 65536"
  by (simp add: roundup_def pageSize_def)

lemma readable_heap0: "4096 \<le> a \<Longrightarrow> a + n \<le> 65536 \<Longrightarrow> readable heap0 a n"
  by (simp add: readable_iff heap0_def)

lemma readable_poke: "readable (poke s a bs) b n = readable s b n"
  by (simp add: readable_def poke_def)

lemma loadBytes_poke_same: "n = length bs \<Longrightarrow> loadBytes (poke s a bs) a n = bs"
  by (rule nth_equalityI) (simp_all add: length_loadBytes nth_loadBytes poke_def pokeBytes_def)

lemma loadBytes_poke_other:
  "b + n \<le> a \<or> a + length bs \<le> b \<Longrightarrow> loadBytes (poke s a bs) b n = loadBytes s b n"
  by (rule loadBytes_cong) (auto simp: poke_def pokeBytes_def)

text \<open>
  C1. For a pointer to a pointee of nonzero size that can be read, \<open>Pointer\<close> returns a
  handle to a region that was unmapped before the call and is recorded as a new
  mapping of exactly the pointee's size; reading through the handle yields the bytes
  the pointee had at the call; every byte of the copy is read-only, and a store to any
  of them faults.
\<close>

theorem Pointer_frozen_copy:
  assumes "wf s" and "0 < sizeOf t" and "readable s (getUintptr dat) (sizeOf t)"
    and "roundup (brk s) < 2 ^ 64"
  shows "\<exists>s' h. Pointer s (Iface (TPtr t) dat) = Ok s' (Iface (TPtr t) (putUintptr h))
     \<and> getUintptr (putUintptr h) = h
     \<and> h = roundup (brk s)
     \<and> mmaps s' = (h, sizeOf t) # mmaps s
     \<and> (\<forall>i < sizeOf t. prot s (h + i) = Unmapped)
     \<and> readable s' h (sizeOf t)
     \<and> loadBytes s' h (sizeOf t) = loadBytes s (getUintptr dat) (sizeOf t)
     \<and> (\<forall>i < sizeOf t. prot s' (h + i) = ReadOnly)
     \<and> (\<forall>i < sizeOf t. \<forall>b. storeBytes s' (h + i) [b] = None)"
proof -
  let ?n = "sizeOf t" and ?h = "roundup (brk s)" and ?p = "getUintptr dat"
  from copyAndFreeze_spec [OF assms(1) assms(2) assms(3)]
  obtain s' where c: "copyAndFreeze s ?p ?n = Ok s' ?h"
    and mm: "mmaps s' = (?h, ?n) # mmaps s"
    and pr: "prot s' = (\<lambda>a. if ?h \<le> a \<and> a < ?h + roundup ?n then ReadOnly else prot s a)"
    and me: "mem s' = (\<lambda>a. if ?h \<le> a \<and> a < ?h + roundup ?n
                      then (if a < ?h + ?n then mem s (?p + (a - ?h)) else 0)
                      else mem s a)"
    by blast
  have ge: "?n \<le> roundup ?n" by (rule roundup_ge)
  have ro: "\<forall>i < ?n. prot s' (?h + i) = ReadOnly" using ge by (simp add: pr)
  have un: "\<forall>i < ?n. prot s (?h + i) = Unmapped"
    using assms(1) roundup_ge [of "brk s"] by (simp add: wf_iff)
  have ld: "loadBytes s' ?h ?n = loadBytes s ?p ?n"
    using ge by (intro loadBytes_cong) (simp add: me)
  have st: "\<forall>i < ?n. \<forall>b. storeBytes s' (?h + i) [b] = None"
    using ro by (simp add: storeBytes_def writable_iff)
  have rd: "readable s' ?h ?n" using ro by (simp add: readable_iff)
  have "Pointer s (Iface (TPtr t) dat) = Ok s' (Iface (TPtr t) (putUintptr ?h))"
    by (simp add: Pointer_def c)
  then show ?thesis
    using getUintptr_putUintptr [OF assms(4)] mm un rd ld ro st by blast
qed

theorem Pointer_frozen_copy_witness:
  "wf heapInt \<and> 0 < sizeOf TInt \<and> readable heapInt (getUintptr (putUintptr 8192)) (sizeOf TInt)
   \<and> roundup (brk heapInt) < 2 ^ 64
   \<and> valueOf (Pointer heapInt ptrInt) = Some (Iface (TPtr TInt) (putUintptr 65536))
   \<and> mmapsAfter (Pointer heapInt ptrInt) = Some [(65536, 8)]
   \<and> bytesAfter (Pointer heapInt ptrInt) 65536 8 = Some (putUintptr 3)
   \<and> protAfter (Pointer heapInt ptrInt) 65536 = Some ReadOnly"
proof -
  have g: "getUintptr (putUintptr 8192) = 8192" by (simp add: getUintptr_putUintptr)
  have b: "brk heapInt = 65536" "mmaps heapInt = []"
    by (simp_all add: heapInt_def poke_def heap0_def)
  have h1: "wf heapInt" by (simp add: heapInt_def wf_poke wf_heap0)
  have h2: "0 < sizeOf TInt" by simp
  have h3: "readable heapInt (getUintptr (putUintptr 8192)) (sizeOf TInt)"
    by (simp add: g heapInt_def readable_poke readable_heap0)
  have h4: "roundup (brk heapInt) < 2 ^ 64" by (simp add: b roundup_65536)
  have l: "loadBytes heapInt 8192 8 = putUintptr 3"
    by (simp add: heapInt_def loadBytes_poke_same length_putUintptr)
  from Pointer_frozen_copy [OF h1 h2 h3 h4]
  obtain s' where "Pointer heapInt (Iface (TPtr TInt) (putUintptr 8192))
        = Ok s' (Iface (TPtr TInt) (putUintptr 65536))"
      and "mmaps s' = [(65536, 8)]"
      and "loadBytes s' 65536 8 = loadBytes heapInt 8192 8"
      and "\<forall>i<8. prot s' (65536 + i) = ReadOnly"
    by (auto simp: b roundup_65536 g)
  moreover from this have "prot s' 65536 = ReadOnly" by (metis add_0_right zero_less_numeral)
  ultimately show ?thesis
    using h1 h2 h3 h4 l
    by (simp add: ptrInt_def mmapsAfter_def bytesAfter_def protAfter_def)
qed

lemma roundup_small: "0 < n \<Longrightarrow> n \<le> pageSize \<Longrightarrow> roundup n = pageSize"
proof -
  assume a: "0 < n" "n \<le> pageSize"
  then have "(n + pageSize - 1) div pageSize = 1"
    using pageSize_pos by (simp add: div_nat_eqI)
  then show ?thesis by (simp add: roundup_def)
qed

lemma roundup_tail: "roundup (hmapSize - hmapOffset) = pageSize"
  by (rule roundup_small) (simp_all add: hmapSize_def hmapOffset_def pageSize_def)

text \<open>
  C3. \<open>mapFreeze\<close> maps exactly \<open>pageSize + (hmapSize - hmapOffset)\<close> bytes, places the
  image of the header at offset \<open>pageSize - hmapOffset\<close> of the mapping, and of the
  bytes of the mapping exactly those from offset \<open>pageSize\<close> on are read-only: the
  count field (the first \<open>hmapOffset\<close> bytes of the copy) is writable, every other
  byte of the copied header is read-only.
\<close>

theorem mapFreeze_split_region:
  assumes "wf s" and "readable s p hmapSize"
  shows "\<exists>s' h. mapFreeze s p = Ok s' h
     \<and> mmaps s' = (roundup (brk s), pageSize + (hmapSize - hmapOffset)) # mmaps s
     \<and> h = roundup (brk s) + (pageSize - hmapOffset)
     \<and> loadBytes s' h hmapSize = loadBytes s p hmapSize
     \<and> (\<forall>i < pageSize + (hmapSize - hmapOffset).
           (prot s' (roundup (brk s) + i) = ReadOnly) = (pageSize \<le> i))
     \<and> (\<forall>i < pageSize. prot s' (roundup (brk s) + i) = ReadWrite)
     \<and> (\<forall>i < hmapOffset. prot s' (h + i) = ReadWrite)
     \<and> (\<forall>i. hmapOffset \<le> i \<and> i < hmapSize \<longrightarrow> prot s' (h + i) = ReadOnly)"
proof -
  let ?b = "roundup (brk s)" and ?h = "roundup (brk s) + (pageSize - hmapOffset)"
  from mapFreeze_spec [OF assms]
  obtain s' where c: "mapFreeze s p = Ok s' ?h"
    and mm: "mmaps s' = (?b, pageSize + (hmapSize - hmapOffset)) # mmaps s"
    and pr: "prot s' = (\<lambda>a. if ?b + pageSize \<le> a
                          \<and> a < ?b + pageSize + roundup (hmapSize - hmapOffset) then ReadOnly
                        else if ?b \<le> a \<and> a < ?b + pageSize then ReadWrite
                        else prot s a)"
    and me: "\<forall>i < hmapSize. mem s' (?h + i) = mem s (p + i)"
    by blast
  have ld: "loadBytes s' ?h hmapSize = loadBytes s p hmapSize"
    using me by (intro loadBytes_cong) simp
  have k: "hmapOffset \<le> pageSize" "hmapOffset \<le> hmapSize" "hmapSize - hmapOffset \<le> pageSize"
    by (simp_all add: hmapSize_def hmapOffset_def pageSize_def)
  have a1: "\<forall>i < pageSize + (hmapSize - hmapOffset). (prot s' (?b + i) = ReadOnly) = (pageSize \<le> i)"
    using k by (auto simp: pr roundup_tail)
  have a2: "\<forall>i < pageSize. prot s' (?b + i) = ReadWrite"
    by (simp add: pr)
  have a3: "\<forall>i < hmapOffset. prot s' (?h + i) = ReadWrite"
    using k by (auto simp: pr)
  have a4: "\<forall>i. hmapOffset \<le> i \<and> i < hmapSize \<longrightarrow> prot s' (?h + i) = ReadOnly"
    using k by (auto simp: pr roundup_tail)
  show ?thesis using c mm ld a1 a2 a3 a4 by blast
qed

lemma heap0_fields: "brk heap0 = 65536" "mmaps heap0 = []"
  by (simp_all add: heap0_def)

lemma page_consts: "pageSize - hmapOffset = 4088" "pageSize + (hmapSize - hmapOffset) = 4136"
  by (simp_all add: pageSize_def hmapSize_def hmapOffset_def)

theorem mapFreeze_split_region_witness:
  "wf heap0 \<and> readable heap0 8192 hmapSize
   \<and> valueOf (mapFreeze heap0 8192) = Some 69624
   \<and> mmapsAfter (mapFreeze heap0 8192) = Some [(65536, 4136)]
   \<and> protAfter (mapFreeze heap0 8192) 69631 = Some ReadWrite
   \<and> protAfter (mapFreeze heap0 8192) 69632 = Some ReadOnly
   \<and> protAfter (mapFreeze heap0 8192) 69671 = Some ReadOnly"
proof -
  have h1: "wf heap0" by (rule wf_heap0)
  have h2: "readable heap0 8192 hmapSize"
    by (rule readable_heap0) (simp_all add: hmapSize_def)
  from mapFreeze_split_region [OF h1 h2, unfolded heap0_fields roundup_65536 page_consts]
  obtain s' where r: "mapFreeze heap0 8192 = Ok s' 69624"
      and m: "mmaps s' = [(65536, 4136)]"
      and w: "\<forall>i < hmapOffset. prot s' (69624 + i) = ReadWrite"
      and o: "\<forall>i. hmapOffset \<le> i \<and> i < hmapSize \<longrightarrow> prot s' (69624 + i) = ReadOnly"
    by auto
  from w [rule_format, of 7] have "prot s' 69631 = ReadWrite" by (simp add: hmapOffset_def)
  moreover from o [rule_format, of 8] have "prot s' 69632 = ReadOnly"
    by (simp add: hmapOffset_def hmapSize_def)
  moreover from o [rule_format, of 47] have "prot s' 69671 = ReadOnly"
    by (simp add: hmapOffset_def hmapSize_def)
  ultimately show ?thesis
    using h1 h2 r m by (simp add: mmapsAfter_def protAfter_def)
qed

text \<open>
  C4, as stated, fails: after \<open>mapFreeze\<close> of the zeroed header at 8192 the copy is at
  69624; its count field is writable and the byte after it (the \<open>flags\<close> field) is
  read-only.
\<close>

theorem mapFreeze_count_frozen_counterexample:
  "valueOf (mapFreeze heap0 8192) = Some 69624
   \<and> protAfter (mapFreeze heap0 8192) 69624 = Some ReadWrite
   \<and> protAfter (mapFreeze heap0 8192) (69624 + hmapOffset) = Some ReadOnly"
proof -
  have h2: "readable heap0 8192 hmapSize"
    by (rule readable_heap0) (simp_all add: hmapSize_def)
  from mapFreeze_spec [OF wf_heap0 h2, unfolded heap0_fields roundup_65536 page_consts]
  obtain s' where r: "mapFreeze heap0 8192 = Ok s' 69624"
      and pr: "prot s' = (\<lambda>a. if 65536 + pageSize \<le> a
                          \<and> a < 65536 + pageSize + roundup (hmapSize - hmapOffset) then ReadOnly
                        else if 65536 \<le> a \<and> a < 65536 + pageSize then ReadWrite
                        else prot heap0 a)"
    by auto
  show ?thesis
    by (simp add: r protAfter_def pr roundup_tail) (simp add: pageSize_def hmapOffset_def)
qed

text \<open>
  C4, amended. After \<open>Map\<close> on a map whose header can be read, the count field of the
  returned map's header (its first \<open>hmapOffset\<close> bytes) is writable, and the remaining
  fields (flags, B, hash0, buckets, oldbuckets, nevacuate, overflow) are the part that
  is read-only.
\<close>

theorem Map_count_stays_writable:
  assumes "wf s" and "readable s (getUintptr dat) hmapSize"
    and "roundup (brk s) + pageSize < 2 ^ 64"
  shows "\<exists>s' h. Map s (Iface (TMap k e) dat) = Ok s' (Iface (TMap k e) (putUintptr h))
     \<and> getUintptr (putUintptr h) = h
     \<and> h = roundup (brk s) + (pageSize - hmapOffset)
     \<and> (\<forall>i < hmapOffset. prot s' (h + i) = ReadWrite)
     \<and> (\<forall>i. hmapOffset \<le> i \<and> i < hmapSize \<longrightarrow> prot s' (h + i) = ReadOnly)"
proof -
  let ?b = "roundup (brk s)" and ?h = "roundup (brk s) + (pageSize - hmapOffset)"
  from mapFreeze_spec [OF assms(1) assms(2)]
  obtain s' where c: "mapFreeze s (getUintptr dat) = Ok s' ?h"
    and pr: "prot s' = (\<lambda>a. if ?b + pageSize \<le> a
                          \<and> a < ?b + pageSize + roundup (hmapSize - hmapOffset) then ReadOnly
                        else if ?b \<le> a \<and> a < ?b + pageSize then ReadWrite
                        else prot s a)"
    by blast
  have k: "hmapOffset \<le> pageSize" "hmapOffset \<le> hmapSize" "hmapSize - hmapOffset \<le> pageSize"
    by (simp_all add: hmapSize_def hmapOffset_def pageSize_def)
  have a3: "\<forall>i < hmapOffset. prot s' (?h + i) = ReadWrite"
    using k by (auto simp: pr)
  have a4: "\<forall>i. hmapOffset \<le> i \<and> i < hmapSize \<longrightarrow> prot s' (?h + i) = ReadOnly"
    using k by (auto simp: pr roundup_tail)
  have "?h < 2 ^ 64" using assms(3) by simp
  then have g: "getUintptr (putUintptr ?h) = ?h" by (rule getUintptr_putUintptr)
  have "Map s (Iface (TMap k e) dat) = Ok s' (Iface (TMap k e) (putUintptr ?h))"
    by (simp add: Map_def c)
  then show ?thesis using g a3 a4 by blast
qed

theorem Map_count_stays_writable_witness:
  "wf heap0 \<and> readable heap0 (getUintptr (putUintptr 8192)) hmapSize
   \<and> roundup (brk heap0) + pageSize < 2 ^ 64
   \<and> valueOf (Map heap0 (Iface (TMap TInt TInt) (putUintptr 8192)))
       = Some (Iface (TMap TInt TInt) (putUintptr 69624))
   \<and> protAfter (Map heap0 (Iface (TMap TInt TInt) (putUintptr 8192))) 69624 = Some ReadWrite
   \<and> protAfter (Map heap0 (Iface (TMap TInt TInt) (putUintptr 8192))) 69633 = Some ReadOnly"
proof -
  have g: "getUintptr (putUintptr 8192) = 8192" by (simp add: getUintptr_putUintptr)
  have h1: "wf heap0" by (rule wf_heap0)
  have h2: "readable heap0 (getUintptr (putUintptr 8192)) hmapSize"
    unfolding g by (rule readable_heap0) (simp_all add: hmapSize_def)
  have h3: "roundup (brk heap0) + pageSize < 2 ^ 64"
    by (simp add: heap0_fields roundup_65536 pageSize_def)
  from Map_count_stays_writable [OF h1 h2 h3, of TInt TInt,
      unfolded heap0_fields roundup_65536 page_consts]
  obtain s' where r: "Map heap0 (Iface (TMap TInt TInt) (putUintptr 8192))
        = Ok s' (Iface (TMap TInt TInt) (putUintptr 69624))"
      and w: "\<forall>i < hmapOffset. prot s' (69624 + i) = ReadWrite"
      and o: "\<forall>i. hmapOffset \<le> i \<and> i < hmapSize \<longrightarrow> prot s' (69624 + i) = ReadOnly"
    by auto
  from w [rule_format, of 0] have "prot s' 69624 = ReadWrite" by (simp add: hmapOffset_def)
  moreover from o [rule_format, of 9] have "prot s' 69633 = ReadOnly"
    by (simp add: hmapOffset_def hmapSize_def)
  ultimately show ?thesis
    using h1 h2 h3 r by (simp add: protAfter_def)
qed

lemma sliceLen_put: "sliceLen (putUintptr p @ drop 8 dat) = sliceLen dat"
  by (simp add: sliceLen_def length_putUintptr)

lemma sliceCap_put: "sliceCap (putUintptr p @ drop 8 dat) = sliceCap dat"
proof -
  have "drop 16 (putUintptr p @ drop 8 dat) = drop 8 (drop 8 dat)"
    by (simp add: length_putUintptr)
  then show ?thesis by (simp add: sliceCap_def)
qed

lemma sliceData_put: "p < 2 ^ 64 \<Longrightarrow> sliceData (putUintptr p @ bs) = p"
  by (simp add: sliceData_def getUintptr_append getUintptr_putUintptr)

text \<open>
  C10. \<open>Slice\<close> on a slice with at least one byte of elements replaces only the data
  word of the header: length and capacity are the input's. The new region is a mapping
  of exactly \<open>sizeOf t * len\<close> bytes, holds the bytes of the first \<open>len\<close> elements and
  is read-only; beyond these bytes nothing is writable: the rest of the last page is
  zero-filled and read-only, and past it nothing is mapped, so the spare capacity of
  the result is not a writable copy of the original's.
\<close>

theorem Slice_header_and_region:
  assumes "wf s" and "0 < sizeOf t * sliceLen dat"
    and "readable s (sliceData dat) (sizeOf t * sliceLen dat)"
    and "roundup (brk s) < 2 ^ 64"
  shows "\<exists>s' hdr. Slice s (Iface (TSlice t) dat) = Ok s' (Iface (TSlice t) hdr)
     \<and> hdr = putUintptr (roundup (brk s)) @ drop 8 dat
     \<and> sliceLen hdr = sliceLen dat \<and> sliceCap hdr = sliceCap dat \<and> drop 8 hdr = drop 8 dat
     \<and> sliceData hdr = roundup (brk s)
     \<and> mmaps s' = (sliceData hdr, sizeOf t * sliceLen dat) # mmaps s
     \<and> loadBytes s' (sliceData hdr) (sizeOf t * sliceLen dat)
         = loadBytes s (sliceData dat) (sizeOf t * sliceLen dat)
     \<and> (\<forall>i < sizeOf t * sliceLen dat. prot s' (sliceData hdr + i) = ReadOnly)
     \<and> (\<forall>i. sizeOf t * sliceLen dat \<le> i \<longrightarrow> prot s' (sliceData hdr + i) \<noteq> ReadWrite)
     \<and> (\<forall>i. sizeOf t * sliceLen dat \<le> i \<and> i < roundup (sizeOf t * sliceLen dat)
            \<longrightarrow> mem s' (sliceData hdr + i) = 0)"
proof -
  let ?n = "sizeOf t * sliceLen dat" and ?h = "roundup (brk s)" and ?p = "sliceData dat"
  let ?hdr = "putUintptr ?h @ drop 8 dat"
  from copyAndFreeze_spec [OF assms(1) assms(2) assms(3)]
  obtain s' where c: "copyAndFreeze s ?p ?n = Ok s' ?h"
    and mm: "mmaps s' = (?h, ?n) # mmaps s"
    and pr: "prot s' = (\<lambda>a. if ?h \<le> a \<and> a < ?h + roundup ?n then ReadOnly else prot s a)"
    and me: "mem s' = (\<lambda>a. if ?h \<le> a \<and> a < ?h + roundup ?n
                      then (if a < ?h + ?n then mem s (?p + (a - ?h)) else 0)
                      else mem s a)"
    by blast
  have d: "sliceData ?hdr = ?h" using assms(4) by (rule sliceData_put)
  have ge: "?n \<le> roundup ?n" by (rule roundup_ge)
  have ro: "\<forall>i < ?n. prot s' (?h + i) = ReadOnly" using ge by (simp add: pr)
  have ld: "loadBytes s' ?h ?n = loadBytes s ?p ?n"
    using ge by (intro loadBytes_cong) (simp add: me)
  have un: "\<And>a. ?h \<le> a \<Longrightarrow> prot s a = Unmapped"
    using assms(1) roundup_ge [of "brk s"] by (simp add: wf_iff)
  have nw: "\<forall>i. ?n \<le> i \<longrightarrow> prot s' (?h + i) \<noteq> ReadWrite"
    using un by (simp add: pr)
  have z: "\<forall>i. ?n \<le> i \<and> i < roundup ?n \<longrightarrow> mem s' (?h + i) = 0"
    by (simp add: me)
  have r: "Slice s (Iface (TSlice t) dat) = Ok s' (Iface (TSlice t) ?hdr)"
    by (simp add: Slice_def c)
  have dr: "drop 8 ?hdr = drop 8 dat" by (simp add: length_putUintptr)
  have "Slice s (Iface (TSlice t) dat) = Ok s' (Iface (TSlice t) ?hdr)
     \<and> ?hdr = putUintptr (roundup (brk s)) @ drop 8 dat
     \<and> sliceLen ?hdr = sliceLen dat \<and> sliceCap ?hdr = sliceCap dat \<and> drop 8 ?hdr = drop 8 dat
     \<and> sliceData ?hdr = roundup (brk s)
     \<and> mmaps s' = (sliceData ?hdr, ?n) # mmaps s
     \<and> loadBytes s' (sliceData ?hdr) ?n = loadBytes s ?p ?n
     \<and> (\<forall>i < ?n. prot s' (sliceData ?hdr + i) = ReadOnly)
     \<and> (\<forall>i. ?n \<le> i \<longrightarrow> prot s' (sliceData ?hdr + i) \<noteq> ReadWrite)
     \<and> (\<forall>i. ?n \<le> i \<and> i < roundup ?n \<longrightarrow> mem s' (sliceData ?hdr + i) = 0)"
    unfolding d using r sliceLen_put [of ?h dat] sliceCap_put [of ?h dat] dr mm ld ro nw z
    by (intro conjI) simp_all
  then show ?thesis by blast
qed

lemma sliceHdr_fields:
  "p < 2 ^ 64 \<Longrightarrow> sliceData (sliceHdr p l c) = p"
  "l < 2 ^ 64 \<Longrightarrow> sliceLen (sliceHdr p l c) = l"
  "c < 2 ^ 64 \<Longrightarrow> sliceCap (sliceHdr p l c) = c"
  "length (sliceHdr p l c) = 24"
  "drop 8 (sliceHdr p l c) = putUintptr l @ putUintptr c"
  by (simp_all add: sliceHdr_def sliceData_def sliceLen_def sliceCap_def length_putUintptr
      getUintptr_append getUintptr_putUintptr)

theorem Slice_header_and_region_witness:
  "wf heap0 \<and> 0 < sizeOf TInt * sliceLen (sliceHdr 8192 3 4)
   \<and> readable heap0 (sliceData (sliceHdr 8192 3 4)) (sizeOf TInt * sliceLen (sliceHdr 8192 3 4))
   \<and> roundup (brk heap0) < 2 ^ 64
   \<and> valueOf (Slice heap0 (Iface (TSlice TInt) (sliceHdr 8192 3 4)))
       = Some (Iface (TSlice TInt) (sliceHdr 65536 3 4))
   \<and> mmapsAfter (Slice heap0 (Iface (TSlice TInt) (sliceHdr 8192 3 4))) = Some [(65536, 24)]
   \<and> protAfter (Slice heap0 (Iface (TSlice TInt) (sliceHdr 8192 3 4))) (65536 + 24) \<noteq> Some ReadWrite
   \<and> bytesAfter (Slice heap0 (Iface (TSlice TInt) (sliceHdr 8192 3 4))) (65536 + 24) 1 = Some [0]"
proof -
  have f: "sliceData (sliceHdr 8192 3 4) = 8192" "sliceLen (sliceHdr 8192 3 4) = 3"
    by (simp_all add: sliceHdr_fields)
  have h1: "wf heap0" by (rule wf_heap0)
  have h2: "0 < sizeOf TInt * sliceLen (sliceHdr 8192 3 4)" by (simp add: f)
  have h3: "readable heap0 (sliceData (sliceHdr 8192 3 4)) (sizeOf TInt * sliceLen (sliceHdr 8192 3 4))"
    by (simp add: f readable_heap0)
  have h4: "roundup (brk heap0) < 2 ^ 64" by (simp add: heap0_fields roundup_65536)
  have dr: "putUintptr 65536 @ drop 8 (sliceHdr 8192 3 4) = sliceHdr 65536 3 4"
    by (simp add: sliceHdr_def length_putUintptr)
  have g: "sliceData (sliceHdr 65536 3 4) = 65536" by (simp add: sliceHdr_fields)
  from Slice_header_and_region [OF h1 h2 h3 h4, unfolded f heap0_fields roundup_65536]
  obtain s' where r: "Slice heap0 (Iface (TSlice TInt) (sliceHdr 8192 3 4))
        = Ok s' (Iface (TSlice TInt) (sliceHdr 65536 3 4))"
    and m: "mmaps s' = [(sliceData (sliceHdr 65536 3 4), sizeOf TInt * 3)]"
    and nw: "\<forall>i. sizeOf TInt * 3 \<le> i \<longrightarrow> prot s' (sliceData (sliceHdr 65536 3 4) + i) \<noteq> ReadWrite"
    and z: "\<forall>i. sizeOf TInt * 3 \<le> i \<and> i < roundup (sizeOf TInt * 3)
            \<longrightarrow> mem s' (sliceData (sliceHdr 65536 3 4) + i) = 0"
    unfolding dr by auto
  from nw [rule_format, of 24] have "prot s' (65536 + 24) \<noteq> ReadWrite" by (simp add: g)
  moreover from z [rule_format, of 24] have "mem s' (65536 + 24) = 0"
    by (simp add: g roundup_def pageSize_def)
  ultimately show ?thesis
    using h1 h2 h3 h4 r m by (simp add: mmapsAfter_def protAfter_def bytesAfter_def loadBytes_def g)
qed

text \<open>
  C7, as stated, fails for the empty map: \<open>Map\<close> of an empty, non-nil map (count 0)
  maps a new region and returns a handle to it, not its input.
\<close>

theorem Map_empty_map_allocates_counterexample:
  "loadBytes heap0 8192 8 = putUintptr 0
   \<and> mmaps heap0 = []
   \<and> mmapsAfter (Map heap0 emptyMap) = Some [(65536, 4136)]
   \<and> valueOf (Map heap0 emptyMap) = Some (Iface (TMap TInt TInt) (putUintptr 69624))
   \<and> valueOf (Map heap0 emptyMap) \<noteq> Some emptyMap"
proof -
  have g: "getUintptr (putUintptr 8192) = 8192" by (simp add: getUintptr_putUintptr)
  have h2: "readable heap0 8192 hmapSize"
    by (rule readable_heap0) (simp_all add: hmapSize_def)
  from mapFreeze_spec [OF wf_heap0 h2, unfolded heap0_fields roundup_65536 page_consts]
  obtain s' where r: "mapFreeze heap0 8192 = Ok s' 69624" and m: "mmaps s' = [(65536, 4136)]"
    by auto
  have v: "Map heap0 emptyMap = Ok s' (Iface (TMap TInt TInt) (putUintptr 69624))"
    by (simp add: Map_def emptyMap_def g r)
  have "getUintptr (putUintptr 69624) \<noteq> getUintptr (putUintptr 8192)"
    by (simp add: getUintptr_putUintptr)
  then have ne: "putUintptr 69624 \<noteq> putUintptr 8192" by metis
  have z: "loadBytes heap0 8192 8 = putUintptr 0"
    by (simp add: loadBytes_def upt8 heap0_def putUintptr_def putLE8)
  show ?thesis
    using z m ne v [unfolded emptyMap_def] by (simp add: mmapsAfter_def heap0_fields emptyMap_def)
qed

text \<open>
  C7, amended. \<open>Pointer\<close>, \<open>Slice\<close>, \<open>Map\<close> and \<open>Object\<close> return a nil interface as it
  is, and \<open>Slice\<close> returns an empty slice as it is; in each case the state, and with
  it the list of mappings, is unchanged.
\<close>

theorem no_op_paths:
  "Pointer s NilIface = Ok s NilIface
   \<and> Slice s NilIface = Ok s NilIface
   \<and> Map s NilIface = Ok s NilIface
   \<and> Object s NilIface = Ok s NilIface
   \<and> (8 \<le> length dat \<and> sliceLen dat = 0
        \<longrightarrow> Slice s (Iface (TSlice t) dat) = Ok s (Iface (TSlice t) dat))"
  by (simp add: Pointer_def Slice_def Map_def Object_def copyAndFreeze_def sliceData_def
      putUintptr_getUintptr)

theorem no_op_paths_witness:
  "8 \<le> length (sliceHdr 8192 0 0) \<and> sliceLen (sliceHdr 8192 0 0) = 0
   \<and> Slice heap0 (Iface (TSlice TInt) (sliceHdr 8192 0 0)) = Ok heap0 (Iface (TSlice TInt) (sliceHdr 8192 0 0))
   \<and> Pointer heap0 NilIface = Ok heap0 NilIface
   \<and> Slice heap0 NilIface = Ok heap0 NilIface
   \<and> Map heap0 NilIface = Ok heap0 NilIface
   \<and> Object heap0 NilIface = Ok heap0 NilIface"
proof -
  have h: "8 \<le> length (sliceHdr 8192 0 0)" "sliceLen (sliceHdr 8192 0 0) = 0"
    by (simp_all add: sliceHdr_fields)
  show ?thesis
    using no_op_paths [of heap0 "sliceHdr 8192 0 0" TInt] h by simp
qed

text \<open>
  C8. An argument that is not nil and has the wrong kind makes the entry point panic
  (the recoverable outcome), and the state in which it panics is the state of the
  call: nothing has been mapped or written.
\<close>

theorem wrong_shape_panics:
  "(kindOf t \<noteq> KPtr \<longrightarrow> Pointer s (Iface t dat) = Panic s ''Pointer called on non-pointer type'')
   \<and> (kindOf t \<noteq> KSlice \<longrightarrow> Slice s (Iface t dat) = Panic s ''Slice called on non-slice type'')
   \<and> (kindOf t \<noteq> KMap \<longrightarrow> Map s (Iface t dat) = Panic s ''Map called on non-map type'')
   \<and> (kindOf t \<noteq> KPtr \<and> kindOf t \<noteq> KSlice \<and> kindOf t \<noteq> KMap
        \<longrightarrow> Object s (Iface t dat) = Panic s ''Object called on invalid type'')"
  by (cases t) (simp_all add: Pointer_def Slice_def Map_def Object_def)

theorem wrong_shape_panics_witness:
  "kindOf (TMap TInt TInt) \<noteq> KPtr
   \<and> Pointer heap0 (Iface (TMap TInt TInt) (putUintptr 8192)) = Panic heap0 ''Pointer called on non-pointer type''
   \<and> kindOf (TPtr TBool) \<noteq> KSlice
   \<and> Slice heap0 (Iface (TPtr TBool) (putUintptr 8192)) = Panic heap0 ''Slice called on non-slice type''
   \<and> kindOf (TSlice TUint8) \<noteq> KMap
   \<and> Map heap0 (Iface (TSlice TUint8) (sliceHdr 8192 0 0)) = Panic heap0 ''Map called on non-map type''
   \<and> kindOf TBool \<noteq> KPtr \<and> kindOf TBool \<noteq> KSlice \<and> kindOf TBool \<noteq> KMap
   \<and> Object heap0 (Iface TBool [1]) = Panic heap0 ''Object called on invalid type''"
  using wrong_shape_panics [of "TMap TInt TInt" heap0 "putUintptr 8192"]
    wrong_shape_panics [of "TPtr TBool" heap0 "putUintptr 8192"]
    wrong_shape_panics [of "TSlice TUint8" heap0 "sliceHdr 8192 0 0"]
    wrong_shape_panics [of TBool heap0 "[1]"]
  by simp

section \<open>The walker\<close>

lemma pokeBytes_same: "pokeBytes (mem s) a (loadBytes s a n) = mem s"
  by (rule ext) (auto simp: pokeBytes_def length_loadBytes nth_loadBytes)

lemma SetV_self: "SetV s (RV t l f) (RV t l f) = Ok s' u \<Longrightarrow> s' = s"
  by (auto simp: SetV_def valueBytes_def storeBytes_def pokeBytes_same length_loadBytes
      split: if_splits loc.splits)

lemma walk_scalar: "\<not> hasPtrs t \<Longrightarrow> walk g s t l f = Ok s (RV t l f)"
  by (cases t) (simp_all add: hasPtrs_def)

lemma walkEach_scalar:
  "\<not> hasPtrs t \<Longrightarrow> walkEach g s t f cs = Ok s' u \<Longrightarrow> s' = s"
proof (induction cs arbitrary: s)
  case Nil
  then show ?case by simp
next
  case (Cons c cs)
  then show ?case
    by (auto simp: walk_scalar dest!: SetV_self split: result.splits)
qed

lemma naive_refines:
  "g = (\<lambda>t. True) \<Longrightarrow> walk g s t l f = Ok s' r \<Longrightarrow> walk hasPtrs s t l f = Ok s' r"
  "g = (\<lambda>t. True) \<Longrightarrow> walkEach g s t f cs = Ok s' u \<Longrightarrow> walkEach hasPtrs s t f cs = Ok s' u"
  "g = (\<lambda>t. True) \<Longrightarrow> walkFields g s l f off fs = Ok s' u \<Longrightarrow> walkFields hasPtrs s l f off fs = Ok s' u"
  "g = (\<lambda>t. True) \<Longrightarrow> walkEntries g s k e f m newMap kbs = Ok s' u
     \<Longrightarrow> walkEntries hasPtrs s k e f m newMap kbs = Ok s' u"
proof (induction g s t l f and g s t f cs and g s l f off fs and g s k e f m newMap kbs
    arbitrary: s' r and s' u and s' u and s' u
    rule: walk_walkEach_walkFields_walkEntries.induct)
  case (1 g s t l f)
  then show ?case
    by (auto simp: walk_scalar dest!: SetV_self split: option.splits if_splits result.splits)
next
  case (2 g s n t l f)
  then show ?case
    by (auto simp: walk_scalar dest!: SetV_self walkEach_scalar split: option.splits if_splits result.splits)
next
  case (3 g s t l f)
  show ?case
  proof (cases "hasPtrs t")
    case True
    with 3 show ?thesis
      by (auto split: option.splits if_splits result.splits)
  next
    case False
    have same: "\<And>cs s1 u. walkEach (\<lambda>t. True) s t f cs = Ok s1 u \<Longrightarrow> s1 = s"
      using False by (rule walkEach_scalar)
    from 3(2,3) False show ?thesis
      by (auto split: option.splits if_splits result.splits dest!: same)
  qed
next
  case (4 g s k e l f)
  then show ?case
    by (auto simp: walk_scalar dest!: SetV_self split: option.splits if_splits result.splits prod.splits)
next
  case (5 g s fs l f)
  then show ?case
    by (auto simp: walk_scalar dest!: SetV_self split: option.splits if_splits result.splits)
next
  case (8 g s t f c cs)
  then show ?case
    by (auto simp: walk_scalar dest!: SetV_self split: option.splits if_splits result.splits)
next
  case (10 g s l f off n p a t fs)
  let ?c = "fieldLoc l (alignUp off (alignOf t)) (sizeOf t)"
  let ?fl = "fieldFlags f p a"
  let ?next = "alignUp off (alignOf t) + sizeOf t"
  show ?case
  proof (cases "p \<noteq> [] \<and> \<not> a")
    case True
    with 10 show ?thesis by simp
  next
    case vis: False
    show ?thesis
    proof (cases "hasPtrs t")
      case True
      with vis 10 show ?thesis
        by (auto split: result.splits)
    next
      case False
      have w: "walk g s t ?c ?fl = Ok s (RV t ?c ?fl)"
        using False by (rule walk_scalar)
      from "10.prems" vis w obtain s2
        where st: "SetV s (RV t ?c ?fl) (RV t ?c ?fl) = Ok s2 ()"
          and rest: "walkFields g s2 l f ?next fs = Ok s' u"
        by (auto split: result.splits)
      have e: "s2 = s" using st by (rule SetV_self)
      have "walkFields hasPtrs s2 l f ?next fs = Ok s' u"
        using "10.IH"(2) [OF _ w st "10.prems"(1) rest] vis "10.prems"(1) by simp
      then show ?thesis using False e by simp
    qed
  qed
next
  case (12 g s k e f m newMap kb kbs)
  then show ?case
    by (auto simp: walk_scalar dest!: SetV_self split: option.splits if_splits result.splits)
qed simp_all

lemma frame_refl: "wf s \<Longrightarrow> frame s s"
  by (simp add: frame_def)

lemma frame_trans: "frame s s1 \<Longrightarrow> frame s1 s2 \<Longrightarrow> frame s s2"
  by (auto simp: frame_def)

lemma frame_wf: "frame s s' \<Longrightarrow> wf s'"
  by (simp add: frame_def)

lemma alignUp_ge: "0 < al \<Longrightarrow> n \<le> alignUp n al"
proof -
  assume p: "0 < al"
  let ?m = "n + al - 1"
  have "?m div al * al + ?m mod al = ?m" by simp
  moreover have "?m mod al < al" using p by simp
  ultimately have "n \<le> ?m div al * al" by linarith
  then show ?thesis by (simp add: alignUp_def)
qed

lemma Mmap_frame: "wf s \<Longrightarrow> Mmap s n = Some (s', a) \<Longrightarrow> frame s s'"
  using roundup_ge [of "brk s"]
  by (auto simp: Mmap_def Let_def frame_def wf_iff split: if_splits)

lemma pokeBytes_out:
  assumes "writable s a n" and "length bs \<le> n" and "prot s x \<noteq> ReadWrite"
  shows "pokeBytes (mem s) a bs x = mem s x"
proof (cases "a \<le> x \<and> x < a + length bs")
  case True
  then have "x - a < n" and "a + (x - a) = x" using assms(2) by auto
  then have "prot s x = ReadWrite" using assms(1) unfolding writable_iff by metis
  with assms(3) show ?thesis by simp
next
  case False
  then show ?thesis by (auto simp: pokeBytes_def)
qed

lemma storeBytes_frame: "wf s \<Longrightarrow> storeBytes s a bs = Some s' \<Longrightarrow> frame s s'"
  by (auto simp: storeBytes_def frame_def wf_iff pokeBytes_out split: if_splits)

lemma copyBytes_frame: "wf s \<Longrightarrow> copyBytes s dst src n = Some s' \<Longrightarrow> frame s s'"
  by (auto simp: copyBytes_def dest: storeBytes_frame split: if_splits)

lemma Mmap_base: "Mmap s n = Some (s', a) \<Longrightarrow> a = roundup (brk s) \<and> brk s' = a + roundup n
    \<and> prot s' = (\<lambda>x. if a \<le> x \<and> x < a + roundup n then ReadWrite else prot s x)"
  by (auto simp: Mmap_def Let_def split: if_splits)

lemma storeBytes_fields: "storeBytes s a bs = Some s' \<Longrightarrow> brk s' = brk s \<and> prot s' = prot s \<and> mmaps s' = mmaps s"
  by (auto simp: storeBytes_def split: if_splits)

lemma copyBytes_fields: "copyBytes s dst src n = Some s' \<Longrightarrow> brk s' = brk s \<and> prot s' = prot s \<and> mmaps s' = mmaps s"
  by (auto simp: copyBytes_def dest: storeBytes_fields split: if_splits)

lemma Mprotect_fields: "Mprotect s a n = Some s' \<Longrightarrow> brk s' = brk s
    \<and> prot s' = (\<lambda>x. if a \<le> x \<and> x < a + roundup n then ReadOnly else prot s x)"
  by (auto simp: Mprotect_def split: if_splits)

lemma copyAndFreeze_Ok:
  assumes w: "wf s" and c: "copyAndFreeze s p n = Ok s' q" and n: "0 < n"
  shows "frame s s' \<and> q = roundup (brk s) \<and> brk s' = q + roundup n
     \<and> (\<forall>i < roundup n. prot s' (q + i) = ReadOnly)"
proof -
  from c n obtain s1 s2 where m: "Mmap s n = Some (s1, q)"
    and cp: "copyBytes s1 q p n = Some s2" and mp: "Mprotect s2 q n = Some s'"
    by (auto simp: copyAndFreeze_def badRead_def split: option.splits prod.splits if_splits)
  note b = Mmap_base [OF m] copyBytes_fields [OF cp] Mprotect_fields [OF mp]
  have ge: "brk s \<le> q" using b roundup_ge [of "brk s"] by simp
  have p': "prot s' = (\<lambda>x. if q \<le> x \<and> x < q + roundup n then ReadOnly else prot s x)"
    using b by (auto simp: fun_eq_iff)
  have f1: "frame s s1" using w m by (rule Mmap_frame)
  have f2: "frame s s2" using f1 copyBytes_frame [OF frame_wf [OF f1] cp] by (rule frame_trans)
  have ms: "mem s' = mem s2" using mp by (auto simp: Mprotect_def split: if_splits)
  have "frame s s'"
    using w ge b f2 by (auto simp: frame_def wf_iff p' ms)
  then show ?thesis using b by (simp add: p')
qed

lemma mapFreeze_Ok:
  assumes w: "wf s" and c: "mapFreeze s p = Ok s' q"
  shows "frame s s'"
proof -
  from c obtain s1 s2 b where m: "Mmap s (pageSize + (hmapSize - hmapOffset)) = Some (s1, b)"
    and cp: "copyBytes s1 (b + (pageSize - hmapOffset)) p hmapSize = Some s2"
    and mp: "Mprotect s2 (b + pageSize) (hmapSize - hmapOffset) = Some s'"
    by (auto simp: mapFreeze_def Let_def badRead_def split: option.splits prod.splits if_splits)
  note f = Mmap_base [OF m] copyBytes_fields [OF cp] Mprotect_fields [OF mp]
  have f1: "frame s s1" using w m by (rule Mmap_frame)
  have f2: "frame s s2" using f1 copyBytes_frame [OF frame_wf [OF f1] cp] by (rule frame_trans)
  have ms: "mem s' = mem s2" using mp by (auto simp: Mprotect_def split: if_splits)
  have ge: "brk s \<le> b" using f roundup_ge [of "brk s"] by simp
  have p': "prot s' = (\<lambda>x. if b + pageSize \<le> x \<and> x < b + pageSize + roundup (hmapSize - hmapOffset)
       then ReadOnly else if b \<le> x \<and> x < b + roundup (pageSize + (hmapSize - hmapOffset)) then ReadWrite
       else prot s x)"
    using f by (auto simp: fun_eq_iff)
  show ?thesis
    using w ge f f2 by (auto simp: frame_def wf_iff p' ms roundup_page_add)
qed

lemma SetV_frame: "wf s \<Longrightarrow> SetV s v x = Ok s' u \<Longrightarrow> frame s s'"
  by (auto simp: SetV_def frame_refl dest: storeBytes_frame
      split: rvalue.splits if_splits loc.splits option.splits)

lemma InterfaceOf_Ok: "InterfaceOf s v = Ok s' i \<Longrightarrow> s' = s"
  by (auto simp: InterfaceOf_def split: rvalue.splits if_splits option.splits)

lemma goNew_frame: "wf s \<Longrightarrow> goNew s n = (s', a) \<Longrightarrow> frame s s'"
  using alignUp_ge [of 8 "brk s"]
  by (auto simp: goNew_def Let_def frame_def wf_iff)

lemma MakeMap_frame: "wf s \<Longrightarrow> MakeMap s = (s', m) \<Longrightarrow> frame s s'"
proof -
  assume w: "wf s" and mk: "MakeMap s = (s', m)"
  obtain s1 m1 where g1: "goNew s hmapSize = (s1, m1)" by (cases "goNew s hmapSize")
  obtain s2 b where g2: "goNew s1 8 = (s2, b)" by (cases "goNew s1 8")
  have f1: "frame s s1" using w g1 by (rule goNew_frame)
  have f2: "frame s1 s2" using frame_wf [OF f1] g2 by (rule goNew_frame)
  have "frame s s2" using f1 f2 by (rule frame_trans)
  moreover have "brk s' = brk s2" "prot s' = prot s2"
    using mk by (auto simp: MakeMap_def g1 g2)
  moreover have "brk s \<le> m1" "m = m1"
    using g1 mk alignUp_ge [of 8 "brk s"] by (auto simp: MakeMap_def goNew_def Let_def g2)
  then have "\<And>a. a < brk s \<Longrightarrow> mem s' a = mem s2 a"
    using mk by (auto simp: MakeMap_def g1 g2 pokeBytes_def)
  ultimately show "frame s s'" by (simp add: frame_def wf_iff)
qed

lemma SetMapIndex_frame: "wf s \<Longrightarrow> SetMapIndex s m key val = Ok s' u \<Longrightarrow> frame s s'"
  by (auto simp: SetMapIndex_def Let_def frame_def wf_iff hmapSize_def
        pokeBytes_out [where n = 48] length_putUintptr
      split: rvalue.splits if_splits option.splits)

lemma Pointer_frame: "wf s \<Longrightarrow> Pointer s i = Ok s' i' \<Longrightarrow> frame s s'"
proof (cases i)
  case NilIface
  assume "wf s" "Pointer s i = Ok s' i'"
  with NilIface show ?thesis by (simp add: Pointer_def frame_refl)
next
  case (Iface t dat)
  assume w: "wf s" and p: "Pointer s i = Ok s' i'"
  from p Iface obtain t' q where c: "copyAndFreeze s (getUintptr dat) (sizeOf t') = Ok s' q"
    by (auto simp: Pointer_def split: gotype.splits result.splits)
  show ?thesis
  proof (cases "sizeOf t' = 0")
    case True
    with c w show ?thesis by (simp add: copyAndFreeze_def frame_refl)
  next
    case False
    then show ?thesis using copyAndFreeze_Ok [OF w c] by simp
  qed
qed

lemma Slice_frame: "wf s \<Longrightarrow> Slice s i = Ok s' i' \<Longrightarrow> frame s s'"
proof (cases i)
  case NilIface
  assume "wf s" "Slice s i = Ok s' i'"
  with NilIface show ?thesis by (simp add: Slice_def frame_refl)
next
  case (Iface t dat)
  assume w: "wf s" and p: "Slice s i = Ok s' i'"
  from p Iface obtain n q where c: "copyAndFreeze s (sliceData dat) n = Ok s' q"
    by (auto simp: Slice_def split: gotype.splits result.splits)
  show ?thesis
  proof (cases "n = 0")
    case True
    with c w show ?thesis by (simp add: copyAndFreeze_def frame_refl)
  next
    case False
    then show ?thesis using copyAndFreeze_Ok [OF w c] by simp
  qed
qed

lemma Map_frame: "wf s \<Longrightarrow> Map s i = Ok s' i' \<Longrightarrow> frame s s'"
  by (cases i) (auto simp: Map_def frame_refl dest: mapFreeze_Ok split: gotype.splits result.splits)

lemma ValueOf_Ok: "ValueOf r = Ok s' v \<Longrightarrow> \<exists>t bs. r = Ok s' (Iface t bs) \<and> v = RV t (Direct bs) noFlags"
  by (auto simp: ValueOf_def split: result.splits iface.splits)

lemma walk_frame:
  "wf s \<Longrightarrow> walk g s t l f = Ok s' r \<Longrightarrow> frame s s'"
  "wf s \<Longrightarrow> walkEach g s t f cs = Ok s' u \<Longrightarrow> frame s s'"
  "wf s \<Longrightarrow> walkFields g s l f off fs = Ok s' u \<Longrightarrow> frame s s'"
  "wf s \<Longrightarrow> walkEntries g s k e f m newMap kbs = Ok s' u \<Longrightarrow> frame s s'"
proof (induction g s t l f and g s t f cs and g s l f off fs and g s k e f m newMap kbs
    arbitrary: s' r and s' u and s' u and s' u
    rule: walk_walkEach_walkFields_walkEntries.induct)
  case (1 g s t l f)
  from "1.prems"(2) obtain bs where vb: "valueBytes s (TPtr t) l = Some bs"
    by (auto split: option.splits)
  show ?case
  proof (cases "getUintptr bs = 0")
    case True
    with "1.prems" vb show ?thesis by (simp add: frame_refl)
  next
    case nz: False
    from "1.prems"(2) vb nz obtain s2 u2 i where
      inner: "(if g t
                then (case walk g s t (Indir (getUintptr bs)) f of
                        Ok s1 x \<Rightarrow> SetV s1 (RV t (Indir (getUintptr bs)) f) x
                      | Panic s1 m \<Rightarrow> Panic s1 m
                      | Fault \<Rightarrow> Fault)
                else Ok s ()) = Ok s2 u2"
      and io: "InterfaceOf s2 (RV (TPtr t) l f) = Ok s2 i"
      and po: "ValueOf (Pointer s2 i) = Ok s' r"
      by (auto split: result.splits dest: InterfaceOf_Ok)
    have f2: "frame s s2"
    proof (cases "g t")
      case True
      with inner obtain s1 x where w1: "walk g s t (Indir (getUintptr bs)) f = Ok s1 x"
        and sv: "SetV s1 (RV t (Indir (getUintptr bs)) f) x = Ok s2 u2"
        by (auto split: result.splits)
      have f1: "frame s s1" using "1.IH" [OF vb nz True "1.prems"(1) w1] .
      have "frame s1 s2" using frame_wf [OF f1] sv by (rule SetV_frame)
      with f1 show ?thesis by (rule frame_trans)
    next
      case False
      with inner "1.prems"(1) show ?thesis by (simp add: frame_refl)
    qed
    from po obtain t' bs' where "Pointer s2 i = Ok s' (Iface t' bs')"
      by (auto dest: ValueOf_Ok)
    then have "frame s2 s'" using frame_wf [OF f2] by (auto dest: Pointer_frame)
    with f2 show ?thesis by (rule frame_trans)
  qed
next
  case (2 g s n t l f)
  then show ?case
    by (auto simp: frame_refl split: if_splits result.splits)
next
  case (3 g s t l f)
  from "3.prems"(2) obtain s1 u1 i where
    inner: "(if g t
            then (case valueBytes s (TSlice t) l of
                    None \<Rightarrow> Fault
                  | Some hdr \<Rightarrow>
                      walkEach g s t f
                        (map (\<lambda>i. Indir (sliceData hdr + i * sizeOf t)) [0..<sliceLen hdr]))
            else Ok s ()) = Ok s1 u1"
    and io: "InterfaceOf s1 (RV (TSlice t) l f) = Ok s1 i"
    and po: "ValueOf (Slice s1 i) = Ok s' r"
    by (auto split: result.splits dest: InterfaceOf_Ok)
  have f1: "frame s s1"
    using inner "3.IH" "3.prems"(1)
    by (auto simp: frame_refl split: if_splits option.splits)
  from po obtain t' bs' where "Slice s1 i = Ok s' (Iface t' bs')"
    by (auto dest: ValueOf_Ok)
  then have "frame s1 s'" using frame_wf [OF f1] by (auto dest: Slice_frame)
  with f1 show ?case by (rule frame_trans)
next
  case (4 g s k e l f)
  from "4.prems"(2) obtain s3 val i where
    inner: "(if hasPtrs e \<or> hasPtrs k
            then (case MakeMap s of (s1, newMap) \<Rightarrow>
                  (case valueBytes s1 (TMap k e) l of
                    None \<Rightarrow> Fault
                  | Some bs \<Rightarrow>
                     (case mapEntries s1 (getUintptr bs) of
                        None \<Rightarrow> Fault
                      | Some es \<Rightarrow>
                         (case walkEntries g s1 k e f (getUintptr bs) newMap (map fst es) of
                            Ok s2 u \<Rightarrow> Ok s2 (RV (TMap k e) (Direct (putUintptr newMap)) noFlags)
                          | Panic s2 m \<Rightarrow> Panic s2 m
                          | Fault \<Rightarrow> Fault))))
            else Ok s (RV (TMap k e) l f)) = Ok s3 val"
    and io: "InterfaceOf s3 val = Ok s3 i"
    and po: "ValueOf (Map s3 i) = Ok s' r"
    by (auto split: result.splits dest: InterfaceOf_Ok)
  have f3: "frame s s3"
  proof (cases "hasPtrs e \<or> hasPtrs k")
    case True
    obtain s1 newMap where mk: "MakeMap s = (s1, newMap)" by (cases "MakeMap s")
    from inner True mk obtain bs es u where vb: "valueBytes s1 (TMap k e) l = Some bs"
      and me: "mapEntries s1 (getUintptr bs) = Some es"
      and we: "walkEntries g s1 k e f (getUintptr bs) newMap (map fst es) = Ok s3 u"
      by (auto split: option.splits result.splits)
    have f1: "frame s s1" using "4.prems"(1) mk by (rule MakeMap_frame)
    have "frame s1 s3"
      using "4.IH" [OF True mk [symmetric] vb me frame_wf [OF f1] we] .
    with f1 show ?thesis by (rule frame_trans)
  next
    case False
    with inner "4.prems"(1) show ?thesis by (simp add: frame_refl)
  qed
  from po obtain t' bs' where "Map s3 i = Ok s' (Iface t' bs')"
    by (auto dest: ValueOf_Ok)
  then have "frame s3 s'" using frame_wf [OF f3] by (auto dest: Map_frame)
  with f3 show ?case by (rule frame_trans)
next
  case (5 g s fs l f)
  then show ?case
    by (auto split: result.splits)
next
  case (8 g s t f c cs)
  from "8.prems"(2) obtain s1 x s2 u2 where w1: "walk g s t c f = Ok s1 x"
    and sv: "SetV s1 (RV t c f) x = Ok s2 u2"
    and rest: "walkEach g s2 t f cs = Ok s' u"
    by (auto split: result.splits)
  have f1: "frame s s1" using "8.IH"(1) [OF "8.prems"(1) w1] .
  have f2: "frame s1 s2" using frame_wf [OF f1] sv by (rule SetV_frame)
  have f12: "frame s s2" using f1 f2 by (rule frame_trans)
  have "frame s2 s'" using "8.IH"(2) [OF w1 sv frame_wf [OF f12] rest] .
  with f12 show ?case by (rule frame_trans)
next
  case (10 g s l f off n p a t fs)
  let ?c = "fieldLoc l (alignUp off (alignOf t)) (sizeOf t)"
  let ?fl = "fieldFlags f p a"
  let ?next = "alignUp off (alignOf t) + sizeOf t"
  show ?case
  proof (cases "\<not> (p \<noteq> [] \<and> \<not> a) \<and> g t")
    case True
    with "10.prems"(2) obtain s1 x s2 u2 where w1: "walk g s t ?c ?fl = Ok s1 x"
      and sv: "SetV s1 (RV t ?c ?fl) x = Ok s2 u2"
      and rest: "walkFields g s2 l f ?next fs = Ok s' u"
      by (auto split: result.splits)
    have f1: "frame s s1" using "10.IH"(1) [OF True "10.prems"(1) w1] .
    have f2: "frame s1 s2" using frame_wf [OF f1] sv by (rule SetV_frame)
    have f12: "frame s s2" using f1 f2 by (rule frame_trans)
    have "frame s2 s'" using "10.IH"(2) [OF True w1 sv frame_wf [OF f12] rest] .
    with f12 show ?thesis by (rule frame_trans)
  next
    case False
    with "10.prems" "10.IH"(3) show ?thesis by auto
  qed
next
  case (12 g s k e f m newMap kb kbs)
  from "12.prems"(2) obtain s1 key es vb s2 val s3 u3 where
      w1: "walk g s k (Direct kb) (roOf f) = Ok s1 key"
    and me: "mapEntries s1 m = Some es" and mo: "map_of es kb = Some vb"
    and w2: "walk g s1 e (Direct vb) (roOf f) = Ok s2 val"
    and sm: "SetMapIndex s2 newMap key val = Ok s3 u3"
    and rest: "walkEntries g s3 k e f m newMap kbs = Ok s' u"
    by (auto split: result.splits option.splits)
  have f1: "frame s s1" using "12.IH"(1) [OF "12.prems"(1) w1] .
  have f2: "frame s1 s2" using "12.IH"(2) [OF w1 me mo frame_wf [OF f1] w2] .
  have f12: "frame s s2" using f1 f2 by (rule frame_trans)
  have f3: "frame s2 s3" using frame_wf [OF f12] sm by (rule SetMapIndex_frame)
  have f13: "frame s s3" using f12 f3 by (rule frame_trans)
  have "frame s3 s'" using "12.IH"(3) [OF w1 me mo w2 sm frame_wf [OF f13] rest] .
  with f13 show ?case by (rule frame_trans)
qed (simp_all add: frame_refl)

lemma not_Ok_cases: "(\<forall>s' x. r \<noteq> Ok s' x) \<longleftrightarrow> r = Fault \<or> panicked r"
  by (cases r) auto

lemma Pointer_Ok_shape:
  "Pointer s (Iface t dat) = Ok s' i \<Longrightarrow>
     \<exists>t' q. t = TPtr t' \<and> i = Iface t (putUintptr q) \<and> copyAndFreeze s (getUintptr dat) (sizeOf t') = Ok s' q"
  by (auto simp: Pointer_def split: gotype.splits result.splits)

lemma Slice_Ok_shape:
  "Slice s (Iface t dat) = Ok s' i \<Longrightarrow>
     \<exists>t' q. t = TSlice t' \<and> i = Iface t (putUintptr q @ drop 8 dat)"
  by (auto simp: Slice_def split: gotype.splits result.splits)

lemma Map_Ok_shape:
  "Map s (Iface t dat) = Ok s' i \<Longrightarrow> \<exists>q. i = Iface t (putUintptr q)"
  by (auto simp: Map_def split: gotype.splits result.splits)

lemma InterfaceOf_Indir:
  "InterfaceOf s (RV t (Indir a) f) = Ok s' i \<Longrightarrow> \<exists>bs. i = Iface t bs \<and> length bs = sizeOf t"
  by (auto simp: InterfaceOf_def valueBytes_def length_loadBytes split: if_splits)

lemma InterfaceOf_Direct:
  "InterfaceOf s (RV t (Direct bs) f) = Ok s' i \<Longrightarrow> i = Iface t bs \<and> s' = s \<and> \<not> isRO f"
  by (auto simp: InterfaceOf_def valueBytes_def split: if_splits)

lemma walk_Indir_result:
  assumes "walk g s t (Indir a) f = Ok s' (RV t' l' f')"
  shows "l' = Indir a \<or> (\<exists>bs. l' = Direct bs \<and> length bs = sizeOf t)"
proof (cases t)
  case (TPtr t0)
  with assms show ?thesis
    by (auto simp: length_putUintptr split: option.splits if_splits result.splits
        dest!: ValueOf_Ok InterfaceOf_Indir Pointer_Ok_shape)
next
  case (TSlice t0)
  with assms show ?thesis
    by (auto simp: length_putUintptr split: option.splits if_splits result.splits
        dest!: ValueOf_Ok InterfaceOf_Indir Slice_Ok_shape)
next
  case (TMap k e)
  with assms show ?thesis
    by (auto simp: length_putUintptr split: option.splits if_splits result.splits prod.splits
        dest!: ValueOf_Ok InterfaceOf_Indir InterfaceOf_Direct Map_Ok_shape)
qed (use assms in \<open>auto split: result.splits\<close>)

lemma walk_type: "walk g s t l f = Ok s' (RV t' l' f') \<Longrightarrow> t' = t"
  by (cases t) (auto split: option.splits if_splits result.splits prod.splits
      dest!: ValueOf_Ok InterfaceOf_Indir InterfaceOf_Direct Pointer_Ok_shape Slice_Ok_shape Map_Ok_shape
      simp: InterfaceOf_def)

lemma Object_Ptr_Ok:
  assumes ok: "Object s (Iface (TPtr t) dat) = Ok s1 h" and nz: "getUintptr dat \<noteq> 0" and w: "wf s"
  shows "\<exists>s0 q. frame s s0 \<and> copyAndFreeze s0 (getUintptr dat) (sizeOf t) = Ok s1 q
      \<and> h = Iface (TPtr t) (putUintptr q)"
proof -
  from ok obtain s' r where wk: "walk hasPtrs s (TPtr t) (Direct dat) noFlags = Ok s' r"
    and io: "InterfaceOf s' r = Ok s1 h"
    by (auto simp: Object_def object_def split: result.splits)
  have vb: "valueBytes s (TPtr t) (Direct dat) = Some dat" by (simp add: valueBytes_def)
  from wk vb nz obtain s2 u2 i where
      inner: "(if hasPtrs t
                then (case walk hasPtrs s t (Indir (getUintptr dat)) noFlags of
                        Ok s1 x \<Rightarrow> SetV s1 (RV t (Indir (getUintptr dat)) noFlags) x
                      | Panic s1 m \<Rightarrow> Panic s1 m
                      | Fault \<Rightarrow> Fault)
                else Ok s ()) = Ok s2 u2"
      and i1: "InterfaceOf s2 (RV (TPtr t) (Direct dat) noFlags) = Ok s2 i"
      and po: "ValueOf (Pointer s2 i) = Ok s' r"
    by (auto split: result.splits dest: InterfaceOf_Ok)
  have f2: "frame s s2"
  proof (cases "hasPtrs t")
    case True
    with inner obtain sa x where w1: "walk hasPtrs s t (Indir (getUintptr dat)) noFlags = Ok sa x"
      and sv: "SetV sa (RV t (Indir (getUintptr dat)) noFlags) x = Ok s2 u2"
      by (auto split: result.splits)
    have fa: "frame s sa" using w w1 by (rule walk_frame(1))
    have "frame sa s2" using frame_wf [OF fa] sv by (rule SetV_frame)
    with fa show ?thesis by (rule frame_trans)
  next
    case False
    with inner w show ?thesis by (simp add: frame_refl)
  qed
  from i1 have i: "i = Iface (TPtr t) dat" by (auto dest: InterfaceOf_Direct)
  from po obtain t' bs' where p1: "Pointer s2 i = Ok s' (Iface t' bs')"
    and r: "r = RV t' (Direct bs') noFlags"
    by (auto dest: ValueOf_Ok)
  from p1 [unfolded i] obtain q where c: "copyAndFreeze s2 (getUintptr dat) (sizeOf t) = Ok s' q"
    and e: "Iface t' bs' = Iface (TPtr t) (putUintptr q)"
    by (auto dest: Pointer_Ok_shape)
  from io r e have "s1 = s'" "h = Iface (TPtr t) (putUintptr q)"
    by (auto dest: InterfaceOf_Direct)
  with f2 c show ?thesis by blast
qed

lemma copyAndFreeze_eq:
  assumes "wf s" and "0 < n" and "readable s p n"
  shows "copyAndFreeze s p n = Ok (afterFreeze s p n) (roundup (brk s))"
proof -
  from copyAndFreeze_spec [OF assms]
  obtain s' where c: "copyAndFreeze s p n = Ok s' (roundup (brk s))"
    and f: "mmaps s' = (roundup (brk s), n) # mmaps s"
      "brk s' = roundup (brk s) + roundup n"
      "buckets s' = buckets s"
      "prot s' = (\<lambda>a. if roundup (brk s) \<le> a \<and> a < roundup (brk s) + roundup n then ReadOnly else prot s a)"
      "mem s' = (\<lambda>a. if roundup (brk s) \<le> a \<and> a < roundup (brk s) + roundup n
                      then (if a < roundup (brk s) + n then mem s (p + (a - roundup (brk s))) else 0)
                      else mem s a)"
    by blast
  have m: "state.more s' = state.more s"
    by simp
  have "s' = afterFreeze s p n"
    by (rule state.equality) (simp_all add: afterFreeze_def f)
  with c show ?thesis by simp
qed

lemma afterFreeze_fields:
  "brk (afterFreeze s p n) = roundup (brk s) + roundup n"
  "mmaps (afterFreeze s p n) = (roundup (brk s), n) # mmaps s"
  "buckets (afterFreeze s p n) = buckets s"
  "prot (afterFreeze s p n) a = (if roundup (brk s) \<le> a \<and> a < roundup (brk s) + roundup n
                     then ReadOnly else prot s a)"
  "mem (afterFreeze s p n) a = (if roundup (brk s) \<le> a \<and> a < roundup (brk s) + roundup n
                    then (if a < roundup (brk s) + n then mem s (p + (a - roundup (brk s))) else 0)
                    else mem s a)"
  by (simp_all add: afterFreeze_def)

lemma wf_afterFreeze: "wf s \<Longrightarrow> wf (afterFreeze s p n)"
  using roundup_ge [of "brk s"] by (auto simp: wf_iff afterFreeze_fields)

lemma poke_fields:
  "brk (poke s a bs) = brk s"
  "mmaps (poke s a bs) = mmaps s"
  "buckets (poke s a bs) = buckets s"
  "prot (poke s a bs) = prot s"
  "mem (poke s a bs) = pokeBytes (mem s) a bs"
  by (simp_all add: poke_def)

lemma storeBytes_poke: "writable s a (length bs) \<Longrightarrow> storeBytes s a bs = Some (poke s a bs)"
  by (simp add: storeBytes_def poke_def)

lemma writable_poke: "writable (poke s a bs) b n = writable s b n"
  by (simp add: writable_def poke_def)

lemma below_brk: "wf s \<Longrightarrow> prot s a \<noteq> Unmapped \<Longrightarrow> a < brk s"
  by (auto simp: wf_iff intro: leI)

lemma readable_afterFreeze: "readable s a m \<Longrightarrow> readable (afterFreeze s p n) a m"
  by (simp add: readable_iff afterFreeze_fields)

lemma writable_afterFreeze: "wf s \<Longrightarrow> writable s a m \<Longrightarrow> writable (afterFreeze s p n) a m"
proof -
  assume w: "wf s" and wr: "writable s a m"
  have "\<And>i. i < m \<Longrightarrow> a + i < roundup (brk s)"
  proof -
    fix i assume "i < m"
    with wr have "prot s (a + i) \<noteq> Unmapped" by (simp add: writable_iff)
    with w have "a + i < brk s" by (rule below_brk)
    then show "a + i < roundup (brk s)" using roundup_ge [of "brk s"] by linarith
  qed
  then have "\<And>i. i < m \<Longrightarrow> prot (afterFreeze s p n) (a + i) = prot s (a + i)"
    by (fastforce simp: afterFreeze_fields)
  with wr show ?thesis by (simp add: writable_iff)
qed

lemma loadBytes_afterFreeze_old:
  assumes "wf s" and "readable s a m"
  shows "loadBytes (afterFreeze s p n) a m = loadBytes s a m"
proof (rule loadBytes_cong)
  fix i assume "i < m"
  with assms have "a + i < brk s" by (rule readable_below_brk)
  then have "a + i < roundup (brk s)" using roundup_ge [of "brk s"] by linarith
  then show "mem (afterFreeze s p n) (a + i) = mem s (a + i)" by (simp add: afterFreeze_fields)
qed

lemma loadBytes_afterFreeze_new:
  "loadBytes (afterFreeze s p n) (roundup (brk s)) n = loadBytes s p n"
  using roundup_ge [of n] by (intro loadBytes_cong) (simp add: afterFreeze_fields)

lemma wf_poke_iff: "wf (poke s a bs) = wf s"
  by (simp add: wf_def poke_def)

text \<open>A pointer to a scalar: the walker has nothing to descend into.\<close>

lemma Object_scalar_pointee:
  assumes "\<not> hasPtrs t" and "getUintptr dat \<noteq> 0"
  shows "Object s (Iface (TPtr t) dat) = Pointer s (Iface (TPtr t) dat)"
proof -
  have vb: "valueBytes s (TPtr t) (Direct dat) = Some dat" by (simp add: valueBytes_def)
  have io: "InterfaceOf s (RV (TPtr t) (Direct dat) noFlags) = Ok s (Iface (TPtr t) dat)"
    by (simp add: InterfaceOf_def valueBytes_def noFlags_def isRO_def)
  have w: "walk hasPtrs s (TPtr t) (Direct dat) noFlags = ValueOf (Pointer s (Iface (TPtr t) dat))"
    using assms by (simp add: vb io)
  have o: "Object s (Iface (TPtr t) dat)
      = (case ValueOf (Pointer s (Iface (TPtr t) dat)) of
           Ok s1 r \<Rightarrow> InterfaceOf s1 r
         | Panic s1 m \<Rightarrow> Panic s1 m
         | Fault \<Rightarrow> Fault)"
    by (simp only: Object_def object_def w iface.case rvalue.case kindOf.simps) simp
  show ?thesis
  proof (cases "Pointer s (Iface (TPtr t) dat)")
    case (Ok s' i)
    then obtain q where "i = Iface (TPtr t) (putUintptr q)" by (auto dest: Pointer_Ok_shape)
    with Ok show ?thesis
      by (simp add: o ValueOf_def InterfaceOf_def valueBytes_def noFlags_def isRO_def)
  next
    case (Panic s' m)
    then show ?thesis by (simp add: o ValueOf_def)
  next
    case Fault
    then show ?thesis by (simp add: o ValueOf_def)
  qed
qed

lemma Pointer_eq:
  assumes "wf s" and "0 < sizeOf t" and "readable s (getUintptr dat) (sizeOf t)"
  shows "Pointer s (Iface (TPtr t) dat)
    = Ok (afterFreeze s (getUintptr dat) (sizeOf t)) (Iface (TPtr t) (putUintptr (roundup (brk s))))"
  by (simp add: Pointer_def copyAndFreeze_eq [OF assms])

lemma heapInt_fields: "brk heapInt = 65536" "mmaps heapInt = []" "wf heapInt"
  by (simp_all add: heapInt_def poke_fields heap0_fields wf_poke_iff wf_heap0)

lemma roundup_8: "roundup 8 = 4096"
  by (simp add: roundup_def pageSize_def)

lemma roundup_69632: "roundup 69632 = 69632"
  by (simp add: roundup_def pageSize_def)

text \<open>
  C6, as stated, fails: a pointer to a scalar can be frozen by \<open>Object\<close> twice. The
  first call on \<^verbatim>\<open>&x\<close> returns the copy at 65536; \<open>Object\<close> applied to that returns
  again, with a second copy at 69632.
\<close>

theorem Object_twice_scalar_counterexample:
  "valueOf (Object heapInt ptrInt) = Some (Iface (TPtr TInt) (putUintptr 65536))
   \<and> valueOf (andThen (Object heapInt ptrInt) Object) = Some (Iface (TPtr TInt) (putUintptr 69632))"
proof -
  have g: "getUintptr (putUintptr 8192) = 8192" "getUintptr (putUintptr 65536) = 65536"
    by (simp_all add: getUintptr_putUintptr)
  have s: "\<not> hasPtrs TInt" by (simp add: hasPtrs_def)
  have r0: "readable heapInt (getUintptr (putUintptr 8192)) (sizeOf TInt)"
    by (simp add: g heapInt_def readable_poke readable_heap0)
  let ?s1 = "afterFreeze heapInt 8192 8"
  have o1: "Object heapInt ptrInt = Ok ?s1 (Iface (TPtr TInt) (putUintptr 65536))"
    unfolding ptrInt_def
    using Pointer_eq [OF heapInt_fields(3) _ r0]
    by (simp add: Object_scalar_pointee [OF s] g heapInt_fields roundup_65536)
  have w1: "wf ?s1" using heapInt_fields(3) by (rule wf_afterFreeze)
  have b1: "brk ?s1 = 69632" by (simp add: afterFreeze_fields heapInt_fields roundup_65536 roundup_8)
  have r1: "readable ?s1 (getUintptr (putUintptr 65536)) (sizeOf TInt)"
    by (simp add: g readable_iff afterFreeze_fields heapInt_fields roundup_65536 roundup_8)
  have o2: "Object ?s1 (Iface (TPtr TInt) (putUintptr 65536))
      = Ok (afterFreeze ?s1 65536 8) (Iface (TPtr TInt) (putUintptr 69632))"
    using Pointer_eq [OF w1 _ r1]
    by (simp add: Object_scalar_pointee [OF s] g b1 roundup_69632)
  show ?thesis by (simp add: o1 o2)
qed

lemma SetV_store:
  "\<not> isRO fl \<Longrightarrow> \<not> isRO fx \<Longrightarrow> writable s a (length bs)
    \<Longrightarrow> SetV s (RV t (Indir a) fl) (RV tx (Direct bs) fx) = Ok (poke s a bs) ()"
  by (simp add: SetV_def valueBytes_def storeBytes_poke)

lemma poke_same: "poke s a (loadBytes s a n) = s"
  by (simp add: poke_def pokeBytes_same)

lemma SetV_self_Ok:
  "\<not> isRO fl \<Longrightarrow> readable s a (sizeOf t) \<Longrightarrow> writable s a (sizeOf t)
    \<Longrightarrow> SetV s (RV t (Indir a) fl) (RV t (Indir a) fl) = Ok s ()"
  by (simp add: SetV_def valueBytes_def storeBytes_poke length_loadBytes poke_same)

lemma SetV_RO:
  "isRO fl \<Longrightarrow> SetV s (RV t l fl) x
     = Panic s ''reflect: reflect.Value.Set using value obtained using unexported field''"
  by (simp add: SetV_def)

lemma writable_readable: "writable s a n \<Longrightarrow> readable s a n"
  by (simp add: writable_iff readable_iff)

lemma writable_prefix: "writable s a n \<Longrightarrow> m \<le> n \<Longrightarrow> writable s a m"
  by (simp add: writable_iff)

lemma readable_prefix: "readable s a n \<Longrightarrow> m \<le> n \<Longrightarrow> readable s a m"
  by (simp add: readable_iff)

lemma isRO_noFlags: "\<not> isRO noFlags" "\<not> isRO (Flags False False)"
  by (simp_all add: isRO_def noFlags_def)

text \<open>A slot that holds a non-nil pointer to a scalar: the pointee is frozen.\<close>

lemma walk_pointer_slot:
  assumes "\<not> g tf" and "readable s a 8" and "getUintptr (loadBytes s a 8) \<noteq> 0" and "\<not> isRO fl"
    and "wf s" and "0 < sizeOf tf" and "readable s (getUintptr (loadBytes s a 8)) (sizeOf tf)"
  shows "walk g s (TPtr tf) (Indir a) fl
    = Ok (afterFreeze s (getUintptr (loadBytes s a 8)) (sizeOf tf))
         (RV (TPtr tf) (Direct (putUintptr (roundup (brk s)))) noFlags)"
proof -
  have vb: "valueBytes s (TPtr tf) (Indir a) = Some (loadBytes s a 8)"
    using assms(2) by (simp add: valueBytes_def)
  have io: "InterfaceOf s (RV (TPtr tf) (Indir a) fl) = Ok s (Iface (TPtr tf) (loadBytes s a 8))"
    using assms(4) by (simp add: InterfaceOf_def vb)
  show ?thesis
    using assms(1,3) Pointer_eq [OF assms(5,6,7)]
    by (subst walk.simps(1)) (simp add: vb io ValueOf_def del: walk.simps)
qed

lemma alignUp_0: "alignUp 0 8 = 0" "alignUp 8 8 = 8" "alignUp 16 8 = 16"
  by (simp_all add: alignUp_def)

lemma roundup_roundup: "roundup (roundup a + roundup b) = roundup a + roundup b"
proof -
  obtain x where x: "roundup a = x * pageSize" by (auto simp: roundup_def)
  obtain y where y: "roundup b = y * pageSize" by (auto simp: roundup_def)
  have "((x + y) * pageSize + pageSize - 1) div pageSize = x + y"
  proof (rule div_nat_eqI)
    show "pageSize * (x + y) \<le> (x + y) * pageSize + pageSize - 1"
      using pageSize_pos by (simp add: mult.commute)
    show "(x + y) * pageSize + pageSize - 1 < pageSize * Suc (x + y)"
      using pageSize_pos by (simp add: mult.commute)
  qed
  then have "roundup ((x + y) * pageSize) = (x + y) * pageSize"
    by (simp add: roundup_def)
  then show ?thesis by (simp add: x y distrib_right)
qed

lemma heapRec_fields: "brk heapRec = 65536" "mmaps heapRec = []" "wf heapRec"
  by (simp_all add: heapRec_def poke_fields heap0_fields wf_poke_iff wf_heap0)

lemma prot_heapRec: "prot heapRec a = (if 4096 \<le> a \<and> a < 65536 then ReadWrite else Unmapped)"
  by (simp add: heapRec_def poke_fields heap0_def)

lemma heapRec_F: "loadBytes heapRec 8192 8 = putUintptr 8300"
  by (simp add: heapRec_def loadBytes_poke_other loadBytes_poke_same length_putUintptr)

lemma heapRec_g: "loadBytes heapRec (8192 + 8) 8 = putUintptr 8400"
  by (simp add: heapRec_def loadBytes_poke_same length_putUintptr)

lemma getUintptr_nums:
  "getUintptr (putUintptr 8192) = 8192" "getUintptr (putUintptr 8300) = 8300"
  "getUintptr (putUintptr 8400) = 8400" "getUintptr (putUintptr 65536) = 65536"
  "getUintptr (putUintptr 69632) = 69632"
  by (simp_all add: getUintptr_putUintptr)

lemma heapRec_hyps:
  "\<not> hasPtrs TInt" "0 < sizeOf TInt" "writable heapRec 8192 16"
  "getUintptr (loadBytes heapRec 8192 8) = 8300" "readable heapRec 8300 (sizeOf TInt)"
  "roundup (brk heapRec) + roundup (sizeOf TInt) < 2 ^ 64"
  by (simp_all add: hasPtrs_def writable_iff readable_iff prot_heapRec heapRec_F getUintptr_nums
      heapRec_fields roundup_65536 roundup_8)

lemma heapEmb_fields: "brk heapEmb = 65536" "mmaps heapEmb = []" "wf heapEmb"
  "loadBytes heapEmb 8192 8 = putUintptr 8300"
  by (simp_all add: heapEmb_def poke_fields heap0_fields wf_poke_iff wf_heap0
      loadBytes_poke_same length_putUintptr)

lemma prot_heapEmb: "prot heapEmb a = (if 4096 \<le> a \<and> a < 65536 then ReadWrite else Unmapped)"
  by (simp add: heapEmb_def poke_fields heap0_def)

text \<open>
  C5, as stated, fails for an embedded field: the field \<open>inner\<close> is unexported (its
  \<open>PkgPath\<close> is not empty), yet the walker descends into it, maps a region for what
  its pointer refers to and rewrites the pointer stored in it, before reflection
  refuses to set the embedded field itself.
\<close>

theorem Object_enters_embedded_unexported_counterexample:
  "pkgPath (Field ''inner'' ''freeze'' True tInner) \<noteq> []
   \<and> loadBytes heapEmb 8192 8 = putUintptr 8300
   \<and> mmaps heapEmb = []
   \<and> bytesAfter (Object heapEmb ptrOuter) 8192 8 = Some (putUintptr 65536)
   \<and> mmapsAfter (Object heapEmb ptrOuter) = Some [(65536, 8)]
   \<and> protAfter (Object heapEmb ptrOuter) 65536 = Some ReadOnly
   \<and> panicked (Object heapEmb ptrOuter)"
proof -
  let ?s1 = "afterFreeze heapEmb 8300 8"
  let ?s2 = "poke ?s1 8192 (putUintptr 65536)"
  let ?msg = "''reflect: reflect.Value.Set using value obtained using unexported field''"
  have sc: "\<not> hasPtrs TInt" by (simp add: hasPtrs_def)
  have hp: "hasPtrs (TPtr TInt)" "hasPtrs tInner" "hasPtrs tOuter"
    by (simp_all add: hasPtrs_def tInner_def tOuter_def)
  have r: "readable heapEmb 8192 8" "readable heapEmb 8300 8" "writable heapEmb 8192 8"
    by (simp_all add: readable_iff writable_iff prot_heapEmb)
  have slot: "walk hasPtrs heapEmb (TPtr TInt) (Indir 8192) (Flags False False)
      = Ok ?s1 (RV (TPtr TInt) (Direct (putUintptr 65536)) noFlags)"
    using walk_pointer_slot [where g = hasPtrs and s = heapEmb and a = 8192 and tf = TInt
        and fl = "Flags False False"] sc r isRO_noFlags(2)
    by (simp add: heapEmb_fields getUintptr_nums roundup_65536)
  have st: "SetV ?s1 (RV (TPtr TInt) (Indir 8192) (Flags False False))
        (RV (TPtr TInt) (Direct (putUintptr 65536)) noFlags) = Ok ?s2 ()"
    using writable_afterFreeze [OF heapEmb_fields(3) r(3)]
    by (intro SetV_store) (simp_all add: isRO_noFlags length_putUintptr)
  have inner_fields: "walkFields hasPtrs heapEmb (Indir 8192) (Flags False True) 0
        [Field ''P'' [] False (TPtr TInt)] = Ok ?s2 ()"
    using hp(1) by (simp add: alignUp_0 fieldLoc_def fieldFlags_def slot st del: walk.simps)
  have inner: "walk hasPtrs heapEmb tInner (Indir 8192) (Flags False True)
      = Ok ?s2 (RV tInner (Indir 8192) (Flags False True))"
    unfolding tInner_def by (subst walk.simps(5)) (simp only: inner_fields result.case)
  have al: "alignOf tInner = 8" "sizeOf tInner = 8" by (simp_all add: tInner_def alignUp_def)
  have ro: "isRO (Flags False True)" by (simp add: isRO_def)
  have outer_fields: "walkFields hasPtrs heapEmb (Indir 8192) noFlags 0
        [Field ''inner'' ''freeze'' True tInner] = Panic ?s2 ?msg"
    using hp(2)
    by (simp add: al alignUp_0 fieldLoc_def fieldFlags_def noFlags_def inner SetV_RO [OF ro]
        del: walk.simps)
  have outer: "walk hasPtrs heapEmb tOuter (Indir 8192) noFlags = Panic ?s2 ?msg"
    unfolding tOuter_def by (subst walk.simps(5)) (simp only: outer_fields result.case)
  have root: "walk hasPtrs heapEmb (TPtr tOuter) (Direct (putUintptr 8192)) noFlags = Panic ?s2 ?msg"
    using hp(3)
    by (subst walk.simps(1)) (simp add: valueBytes_def getUintptr_nums outer del: walk.simps)
  have res: "Object heapEmb ptrOuter = Panic ?s2 ?msg"
    by (simp only: Object_def object_def ptrOuter_def root iface.case rvalue.case kindOf.simps)
       simp
  have b: "loadBytes ?s2 8192 8 = putUintptr 65536"
    by (simp add: loadBytes_poke_same length_putUintptr)
  show ?thesis
    by (simp add: res b bytesAfter_def mmapsAfter_def protAfter_def heapEmb_fields poke_fields
        afterFreeze_fields roundup_65536 roundup_8)
qed

text \<open>
  C9, amended. Whenever the walker that always recurses returns normally, the walker
  with the \<open>hasPtrs\<close> guard returns the same value in the same final state.
\<close>

theorem hasPtrs_guard_refines_naive:
  "objectNaive s v = Ok s' r \<Longrightarrow> object s v = Ok s' r"
  by (cases v) (simp add: objectNaive_def object_def naive_refines(1))

theorem hasPtrs_guard_refines_naive_witness:
  "objectNaive heapInt valInt
     = Ok (afterFreeze heapInt 8192 8) (RV (TPtr TInt) (Direct (putUintptr 65536)) noFlags)
   \<and> object heapInt valInt
     = Ok (afterFreeze heapInt 8192 8) (RV (TPtr TInt) (Direct (putUintptr 65536)) noFlags)"
proof -
  have r: "readable heapInt 8192 8" "writable heapInt 8192 8"
    by (simp_all add: readable_iff writable_iff heapInt_def poke_fields heap0_def)
  have self: "SetV heapInt (RV TInt (Indir 8192) noFlags) (RV TInt (Indir 8192) noFlags)
      = Ok heapInt ()"
    using r by (intro SetV_self_Ok) (simp_all add: isRO_noFlags)
  have pt: "Pointer heapInt (Iface (TPtr TInt) (putUintptr 8192))
      = Ok (afterFreeze heapInt 8192 8) (Iface (TPtr TInt) (putUintptr 65536))"
    using Pointer_eq [of heapInt TInt "putUintptr 8192"] r
    by (simp add: heapInt_fields getUintptr_nums roundup_65536)
  have leaf: "walk (\<lambda>t. True) heapInt TInt (Indir 8192) noFlags
      = Ok heapInt (RV TInt (Indir 8192) noFlags)"
    by simp
  have n: "objectNaive heapInt valInt
     = Ok (afterFreeze heapInt 8192 8) (RV (TPtr TInt) (Direct (putUintptr 65536)) noFlags)"
    unfolding objectNaive_def valInt_def
    by (simp only: rvalue.case, subst walk.simps(1))
       (simp add: valueBytes_def getUintptr_nums leaf self InterfaceOf_def isRO_noFlags pt
          ValueOf_def del: walk.simps)
  from hasPtrs_guard_refines_naive [OF n] n show ?thesis by simp
qed

text \<open>
  C9, as stated, fails where a scalar field cannot be set: for a record that embeds a
  scalar of unexported type the guarded walker skips the field and returns the frozen
  copy, while the walker that always recurses tries to set the field and panics.
\<close>

theorem hasPtrs_guard_not_pure_counterexample:
  "object heap0 valEmbInt
     = Ok (afterFreeze heap0 8192 8) (RV (TPtr tEmbInt) (Direct (putUintptr 65536)) noFlags)
   \<and> panicked (objectNaive heap0 valEmbInt)"
proof -
  let ?msg = "''reflect: reflect.Value.Set using value obtained using unexported field''"
  have sc: "\<not> hasPtrs TInt" by (simp add: hasPtrs_def)
  have hp: "hasPtrs tEmbInt" by (simp add: hasPtrs_def tEmbInt_def)
  have sz: "sizeOf tEmbInt = 8" by (simp add: tEmbInt_def alignUp_def)
  have r: "readable heap0 8192 8" "writable heap0 8192 8"
    by (simp_all add: readable_iff writable_iff heap0_def)
  have gf: "walkFields hasPtrs heap0 (Indir 8192) noFlags 0 [Field ''myint'' ''freeze'' True TInt]
      = Ok heap0 ()"
    using sc by (simp del: walk.simps)
  have gb: "walk hasPtrs heap0 tEmbInt (Indir 8192) noFlags = Ok heap0 (RV tEmbInt (Indir 8192) noFlags)"
    unfolding tEmbInt_def by (subst walk.simps(5)) (simp only: gf result.case)
  have self: "SetV heap0 (RV tEmbInt (Indir 8192) noFlags) (RV tEmbInt (Indir 8192) noFlags)
      = Ok heap0 ()"
    using r by (intro SetV_self_Ok) (simp_all add: isRO_noFlags sz)
  have pt: "Pointer heap0 (Iface (TPtr tEmbInt) (putUintptr 8192))
      = Ok (afterFreeze heap0 8192 8) (Iface (TPtr tEmbInt) (putUintptr 65536))"
    using Pointer_eq [of heap0 tEmbInt "putUintptr 8192"] r
    by (simp add: sz wf_heap0 heap0_fields getUintptr_nums roundup_65536)
  have g: "object heap0 valEmbInt
     = Ok (afterFreeze heap0 8192 8) (RV (TPtr tEmbInt) (Direct (putUintptr 65536)) noFlags)"
    unfolding object_def valEmbInt_def
    using hp
    by (simp only: rvalue.case, subst walk.simps(1))
       (simp add: valueBytes_def getUintptr_nums gb self InterfaceOf_def isRO_noFlags pt
          ValueOf_def del: walk.simps)
  have ro: "isRO (Flags False True)" by (simp add: isRO_def)
  have nf: "walkFields (\<lambda>t. True) heap0 (Indir 8192) noFlags 0 [Field ''myint'' ''freeze'' True TInt]
      = Panic heap0 ?msg"
    by (simp add: fieldFlags_def noFlags_def SetV_RO [OF ro])
  have nb: "walk (\<lambda>t. True) heap0 tEmbInt (Indir 8192) noFlags = Panic heap0 ?msg"
    unfolding tEmbInt_def by (subst walk.simps(5)) (simp only: nf result.case)
  have n: "objectNaive heap0 valEmbInt = Panic heap0 ?msg"
    unfolding objectNaive_def valEmbInt_def
    by (simp only: rvalue.case, subst walk.simps(1))
       (simp add: valueBytes_def getUintptr_nums nb del: walk.simps)
  show ?thesis by (simp add: g n)
qed

end
